theory Spec2Isabelle
  imports Main "HOL-Library.List_Lexorder" "HOL-Library.Multiset"
begin

section \<open>Python strings\<close>

text \<open>
  A Python \<open>str\<close> is a sequence of Unicode code points.  A code point is a natural
  number here, so that the characters beyond Latin-1 which \<open>str.strip\<close> and
  \<open>str.splitlines\<close> treat specially are part of the model.  \<open>py\<close> turns an
  ASCII literal into such a string.
\<close>

type_synonym pystr = "nat list"

definition py :: "string \<Rightarrow> pystr" where
  "py s = map of_char s"

abbreviation NL :: nat where "NL \<equiv> 10"
abbreviation TAB :: nat where "TAB \<equiv> 9"
abbreviation CR :: nat where "CR \<equiv> 13"
abbreviation SP :: nat where "SP \<equiv> 32"

text \<open>The characters \<open>str.strip()\<close> removes: those with \<open>str.isspace()\<close> true.\<close>

definition is_space :: "nat \<Rightarrow> bool" where
  "is_space c \<longleftrightarrow>
     (9 \<le> c \<and> c \<le> 13) \<or> (28 \<le> c \<and> c \<le> 32) \<or> c = 133 \<or> c = 160 \<or> c = 5760 \<or>
     (8192 \<le> c \<and> c \<le> 8202) \<or> c = 8232 \<or> c = 8233 \<or> c = 8239 \<or> c = 8287 \<or> c = 12288"

text \<open>The line boundaries of \<open>str.splitlines()\<close>.\<close>

definition is_linebreak :: "nat \<Rightarrow> bool" where
  "is_linebreak c \<longleftrightarrow>
     (10 \<le> c \<and> c \<le> 13) \<or> (28 \<le> c \<and> c \<le> 30) \<or> c = 133 \<or> c = 8232 \<or> c = 8233"

text \<open>The character class \<open>[ \t]\<close> of the first regular expression in \<open>to_text\<close>.\<close>

definition is_blank :: "nat \<Rightarrow> bool" where
  "is_blank c \<longleftrightarrow> c = SP \<or> c = TAB"

definition lstrip :: "pystr \<Rightarrow> pystr" where
  "lstrip s = dropWhile is_space s"

definition rstrip :: "pystr \<Rightarrow> pystr" where
  "rstrip s = rev (dropWhile is_space (rev s))"

definition strip :: "pystr \<Rightarrow> pystr" where
  "strip s = rstrip (lstrip s)"

text \<open>\<open>s.startswith(p)\<close> and \<open>s.endswith(p)\<close>\<close>

definition startswith :: "pystr \<Rightarrow> pystr \<Rightarrow> bool" where
  "startswith s p \<longleftrightarrow> take (length p) s = p"

definition endswith :: "pystr \<Rightarrow> pystr \<Rightarrow> bool" where
  "endswith s p \<longleftrightarrow> length p \<le> length s \<and> drop (length s - length p) s = p"

text \<open>\<open>sep.join(xs)\<close>\<close>

fun join :: "pystr \<Rightarrow> pystr list \<Rightarrow> pystr" where
  "join sep [] = []"
| "join sep [x] = x"
| "join sep (x # y # ys) = x @ sep @ join sep (y # ys)"

text \<open>
  \<open>s.splitlines()\<close>: the text up to the next line boundary is one line, \<open>\r\n\<close> counts as
  one boundary, and nothing follows a final boundary.
\<close>

function splitlines :: "pystr \<Rightarrow> pystr list" where
  "splitlines [] = []"
| "splitlines (c # cs) =
     (let line = takeWhile (\<lambda>x. \<not> is_linebreak x) (c # cs) in
      case dropWhile (\<lambda>x. \<not> is_linebreak x) (c # cs) of
        [] \<Rightarrow> [line]
      | d # ds \<Rightarrow>
          (case ds of
             [] \<Rightarrow> line # splitlines ds
           | e # es \<Rightarrow>
               if d = CR \<and> e = NL then line # splitlines es else line # splitlines ds))"
  by pat_completeness auto
termination
proof (relation "measure length", goal_cases)
  case 1
  show ?case by simp
next
  case (2 c cs line d ds)
  have "length (dropWhile (\<lambda>x. \<not> is_linebreak x) (c # cs)) \<le> length (c # cs)"
    by (rule length_dropWhile_le)
  with 2 show ?case by simp
next
  case (3 c cs line d ds e es)
  have "length (dropWhile (\<lambda>x. \<not> is_linebreak x) (c # cs)) \<le> length (c # cs)"
    by (rule length_dropWhile_le)
  with 3 show ?case by simp
next
  case (4 c cs line d ds e es)
  have "length (dropWhile (\<lambda>x. \<not> is_linebreak x) (c # cs)) \<le> length (c # cs)"
    by (rule length_dropWhile_le)
  with 4 show ?case by simp
qed

section \<open>The text normalizer: \<open>DocxText.to_text\<close>\<close>

text \<open>
  \<open>re.sub(r"[ \t]+\n", "\n", text)\<close>.  Scanning from the left, a match starts at a blank
  whose maximal run of blanks is followed by a newline; the run and the newline become
  one newline and the scan goes on behind it.  Where no match starts the character is
  kept and the scan moves one character on.
\<close>

function re_sub_blank_nl :: "pystr \<Rightarrow> pystr" where
  "re_sub_blank_nl [] = []"
| "re_sub_blank_nl (c # cs) =
     (if is_blank c then
        (case dropWhile is_blank cs of
           [] \<Rightarrow> c # re_sub_blank_nl cs
         | d # ds \<Rightarrow> if d = NL then NL # re_sub_blank_nl ds else c # re_sub_blank_nl cs)
      else c # re_sub_blank_nl cs)"
  by pat_completeness auto
termination
proof (relation "measure length", goal_cases)
  case (3 c cs d ds)
  have "length (dropWhile is_blank cs) \<le> length cs"
    by (rule length_dropWhile_le)
  with 3 show ?case by simp
qed simp_all

text \<open>
  \<open>re.sub(r"\n{3,}", "\n\n", text)\<close>.  A match starts at a newline followed by two
  more and takes the whole run of newlines; it becomes two newlines.
\<close>

function re_sub_nl3 :: "pystr \<Rightarrow> pystr" where
  "re_sub_nl3 [] = []"
| "re_sub_nl3 (c # cs) =
     (if c = NL \<and> take 2 cs = [NL, NL]
      then NL # NL # re_sub_nl3 (dropWhile (\<lambda>x. x = NL) cs)
      else c # re_sub_nl3 cs)"
  by pat_completeness auto
termination
proof (relation "measure length", goal_cases)
  case (2 c cs)
  have "length (dropWhile (\<lambda>x. x = NL) cs) \<le> length cs"
    by (rule length_dropWhile_le)
  then show ?case by simp
qed simp_all

record DocxText =
  paragraphs :: "pystr list"

text \<open>The loop \<open>for paragraph in self.paragraphs: lines.extend(paragraph.splitlines())\<close>.\<close>

definition collect_lines :: "pystr list \<Rightarrow> pystr list" where
  "collect_lines ps = foldl (\<lambda>lines paragraph. lines @ splitlines paragraph) [] ps"

definition to_text :: "DocxText \<Rightarrow> pystr" where
  "to_text d =
     (let lines = collect_lines (paragraphs d);
          text = join [NL] lines;
          text = re_sub_blank_nl text;
          text = re_sub_nl3 text
      in strip text @ [NL])"

section \<open>XML element trees\<close>

text \<open>
  An \<open>xml.etree.ElementTree.Element\<close> with the fields the extractor reads: the
  namespace-qualified tag, the text before the first child, and the children.
  The field \<open>text\<close> is \<open>text_of\<close> here.  Attributes and tail text are never read by
  the program.  The default parser drops
  comments and processing instructions, so every node is an element.
\<close>

datatype element = Element (tag: pystr) (text_of: "pystr option") (children: "element list")

text \<open>\<open>Element.iter()\<close>: the element itself, then its descendants, in document order.\<close>

fun iter :: "element \<Rightarrow> element list" where
  "iter (Element t x cs) = Element t x cs # concat (map iter cs)"

text \<open>
  \<open>root.findall(".//w:p", ns)\<close>.  ElementPath resolves the prefix to the qualified tag
  and yields, for the context element, \<open>[e for e in elem.iter(tag) if e is not elem]\<close>.
  The context element is the first node of \<open>iter\<close> and no descendant is that same
  object, so the result is the matching nodes behind the head of \<open>iter\<close>.
\<close>

definition findall_descendants :: "pystr \<Rightarrow> element \<Rightarrow> element list" where
  "findall_descendants t root = filter (\<lambda>e. tag e = t) (tl (iter root))"

definition w_ns :: pystr where
  "w_ns = py ''http://schemas.openxmlformats.org/wordprocessingml/2006/main''"

text \<open>The qualified name \<open>f"{{{ns['w']}}}local"\<close>.\<close>

definition qn :: "string \<Rightarrow> pystr" where
  "qn l = py ''{'' @ w_ns @ py ''}'' @ py l"

section \<open>The paragraph text extractor\<close>

text \<open>One round of the loop over \<open>p.iter()\<close> in \<open>_extract_paragraph_text\<close>.\<close>

definition emit_step :: "pystr list \<Rightarrow> element \<Rightarrow> pystr list" where
  "emit_step out node =
     (if tag node = qn ''t'' then
        (case text_of node of
           None \<Rightarrow> out
         | Some t \<Rightarrow> if t \<noteq> [] then out @ [t] else out)
      else if tag node = qn ''tab'' then out @ [[TAB]]
      else if tag node \<in> set [qn ''br'', qn ''cr''] then out @ [[NL]]
      else out)"

definition emitted :: "element \<Rightarrow> pystr list" where
  "emitted p = foldl emit_step [] (iter p)"

definition extract_paragraph_text :: "element \<Rightarrow> pystr" where
  "extract_paragraph_text p = strip (join [] (emitted p))"

definition extract_paragraphs_from_xml :: "element \<Rightarrow> pystr list" where
  "extract_paragraphs_from_xml root =
     foldl (\<lambda>paras p. paras @ [extract_paragraph_text p]) []
       (findall_descendants (qn ''p'') root)"

section \<open>The archive reader and the part aggregator\<close>

text \<open>
  The exceptions that the library calls of the program raise.  \<open>ZlibError\<close> is
  \<open>zlib.error\<close>, \<open>ParseError\<close> is \<open>ET.ParseError\<close>.
\<close>

datatype exn =
    BadZipFile | KeyError | ParseError | LookupError | ValueError | ZlibError
  | RuntimeError | NotImplementedError | OSError | FileNotFoundError

text \<open>
  The file at \<open>docx_path\<close>.  Either \<open>zipfile.ZipFile(docx_path)\<close> raises an exception
  (\<open>BadZipFile\<close> for a file that is not a zip container, written \<open>NotZip\<close>), or the
  file is a zip container with its entries in directory order.  An entry has a name and
  a member: \<open>Inr data\<close> when \<open>ZipFile.read\<close> returns its bytes, \<open>Inl e\<close> when reading it
  raises \<open>e\<close> (\<open>BadZipFile\<close> for a wrong checksum, \<open>zlib.error\<close> for a damaged
  compressed stream, \<open>RuntimeError\<close> for an encrypted entry, \<open>NotImplementedError\<close> for
  an unknown compression method).  The data is of any type \<open>'b\<close>.

  \<open>ZipFile.namelist()\<close> lists every entry; \<open>ZipFile.read(name)\<close> finds the entry through
  a dictionary in which a later entry of the same name has replaced an earlier one, and
  raises \<open>KeyError\<close> when the name is not there.

  \<open>ET.fromstring\<close> is a parameter \<open>fromstring\<close> of the functions below: \<open>Inr root\<close> for
  the parsed tree, \<open>Inl e\<close> when it raises \<open>e\<close> (\<open>ParseError\<close> for text that is not
  well-formed, \<open>LookupError\<close> for an unknown declared encoding, \<open>ValueError\<close> for a
  declared multi-byte encoding).
\<close>

datatype 'b docx_file = OpenRaises exn | ZipFile "(pystr \<times> (exn + 'b)) list"

abbreviation NotZip :: "'b docx_file" where
  "NotZip \<equiv> OpenRaises BadZipFile"

definition DOCX_WORD_DIR :: pystr where
  "DOCX_WORD_DIR = py ''word/''"

definition DOCX_MAIN_DOCUMENT :: pystr where
  "DOCX_MAIN_DOCUMENT = py ''word/document.xml''"

definition zf_read :: "(pystr \<times> (exn + 'b)) list \<Rightarrow> pystr \<Rightarrow> exn + 'b" where
  "zf_read entries inner_path =
     (case map_of (rev entries) inner_path of
        None \<Rightarrow> Inl KeyError
      | Some member \<Rightarrow> member)"

definition zf_namelist :: "(pystr \<times> (exn + 'b)) list \<Rightarrow> pystr list" where
  "zf_namelist entries = map fst entries"

text \<open>
  \<open>_read_xml_from_docx\<close>.  The inner \<open>try\<close> catches \<open>KeyError\<close> from \<open>zf.read\<close>, the
  outer one \<open>BadZipFile\<close> from opening and from reading, the last one \<open>ParseError\<close>
  from \<open>ET.fromstring\<close>; each gives \<open>None\<close>.  Any other exception leaves the function,
  which is the \<open>Inl\<close> result.
\<close>

definition read_xml_from_docx ::
    "('b \<Rightarrow> exn + element) \<Rightarrow> 'b docx_file \<Rightarrow> pystr \<Rightarrow> exn + element option" where
  "read_xml_from_docx fromstring docx inner_path =
     (case docx of
        OpenRaises e \<Rightarrow> if e = BadZipFile then Inr None else Inl e
      | ZipFile entries \<Rightarrow>
          (case zf_read entries inner_path of
             Inl e \<Rightarrow>
               if e = KeyError then Inr None
               else if e = BadZipFile then Inr None
               else Inl e
           | Inr data \<Rightarrow>
               (case fromstring data of
                  Inl e \<Rightarrow> if e = ParseError then Inr None else Inl e
                | Inr root \<Rightarrow> Inr (Some root))))"

definition is_extra_xml :: "pystr \<Rightarrow> bool" where
  "is_extra_xml name \<longleftrightarrow>
     startswith name DOCX_WORD_DIR
     \<and> (startswith name (py ''word/header'')
        \<or> startswith name (py ''word/footer'')
        \<or> name \<in> set [py ''word/footnotes.xml'', py ''word/endnotes.xml''])
     \<and> endswith name (py ''.xml'')"

text \<open>
  One round of the loop \<open>for inner in sorted(extra_xmls)\<close>; \<open>paras\<close> is the list
  \<open>paragraphs\<close> of the source.  Once a round has raised, the loop is left and the
  exception stays.
\<close>

definition extra_step ::
    "('b \<Rightarrow> exn + element) \<Rightarrow> 'b docx_file \<Rightarrow> exn + pystr list \<Rightarrow> pystr
      \<Rightarrow> exn + pystr list" where
  "extra_step fromstring docx st inner =
     (case st of
        Inl e \<Rightarrow> Inl e
      | Inr paras \<Rightarrow>
          (case read_xml_from_docx fromstring docx inner of
             Inl e \<Rightarrow> Inl e
           | Inr None \<Rightarrow> Inr paras
           | Inr (Some extra) \<Rightarrow> Inr (paras @ extract_paragraphs_from_xml extra)))"

text \<open>
  \<open>extract_docx_text\<close>.  No call in it is guarded: an exception that leaves
  \<open>_read_xml_from_docx\<close>, or that the second opening of the file raises, leaves
  \<open>extract_docx_text\<close> too.
\<close>

definition extract_docx_text ::
    "('b \<Rightarrow> exn + element) \<Rightarrow> 'b docx_file \<Rightarrow> exn + DocxText option" where
  "extract_docx_text fromstring docx =
     (case read_xml_from_docx fromstring docx DOCX_MAIN_DOCUMENT of
        Inl e \<Rightarrow> Inl e
      | Inr None \<Rightarrow> Inr None
      | Inr (Some main) \<Rightarrow>
          (let paras = extract_paragraphs_from_xml main in
           case docx of
             OpenRaises e \<Rightarrow> Inl e
           | ZipFile entries \<Rightarrow>
               (let extra_xmls = filter is_extra_xml (zf_namelist entries) in
                case foldl (extra_step fromstring docx) (Inr paras) (sort extra_xmls) of
                  Inl e \<Rightarrow> Inl e
                | Inr paras \<Rightarrow> Inr (Some \<lparr>paragraphs = paras\<rparr>))))"

section \<open>Directories and the batch converter\<close>

text \<open>
  A directory is the list of its entries in the order the operating system lists them;
  an entry has a name, is a regular file or not, and has a content.
\<close>

record 'c dirent =
  name :: pystr
  is_file :: bool
  content :: 'c

text \<open>
  \<open>PurePath.suffix\<close> and \<open>PurePath.stem\<close> (CPython up to 3.12): the name is cut at
  its last dot, unless that dot is the first or the last character or there is none.
\<close>

definition rfind_dot :: "pystr \<Rightarrow> nat option" where
  "rfind_dot nm =
     (case dropWhile (\<lambda>c. c \<noteq> 46) (rev nm) of
        [] \<Rightarrow> None
      | d # r \<Rightarrow> Some (length r))"

definition suffix_of :: "pystr \<Rightarrow> pystr" where
  "suffix_of nm =
     (case rfind_dot nm of
        None \<Rightarrow> []
      | Some i \<Rightarrow> if 0 < i \<and> i < length nm - 1 then drop i nm else [])"

definition stem :: "pystr \<Rightarrow> pystr" where
  "stem nm =
     (case rfind_dot nm of
        None \<Rightarrow> nm
      | Some i \<Rightarrow> if 0 < i \<and> i < length nm - 1 then take i nm else nm)"

text \<open>
  \<open>iter_docx_files\<close>: the entries matching \<open>*.docx\<close>, sorted as paths of one directory
  (that is, by name), of which the regular files are yielded.
\<close>

definition iter_docx_files :: "'c dirent list \<Rightarrow> 'c dirent list" where
  "iter_docx_files input_dir =
     filter is_file (sort_key name (filter (\<lambda>e. endswith (name e) (py ''.docx'')) input_dir))"

text \<open>
  The effect of \<open>convert_directory\<close>: the files written, in order, each with its name
  in the output directory and its text, and the two counters it returns.  The loop has
  no \<open>try\<close>: an exception that leaves \<open>extract_docx_text\<close> leaves
  \<open>convert_directory\<close>, and the files behind are not reached.  Creating the output
  directory and writing a file are taken to succeed.
\<close>

record batch =
  written :: "(pystr \<times> pystr) list"
  converted :: nat
  skipped :: nat

definition convert_step ::
    "('b \<Rightarrow> exn + element) \<Rightarrow> exn + batch \<Rightarrow> 'b docx_file dirent \<Rightarrow> exn + batch" where
  "convert_step fromstring st docx_path =
     (case st of
        Inl e \<Rightarrow> Inl e
      | Inr b \<Rightarrow>
          (case extract_docx_text fromstring (content docx_path) of
             Inl e \<Rightarrow> Inl e
           | Inr None \<Rightarrow> Inr (b\<lparr>skipped := skipped b + 1\<rparr>)
           | Inr (Some docx_text) \<Rightarrow>
               Inr (b\<lparr>written := written b @ [(stem (name docx_path) @ py ''.txt'', to_text docx_text)],
                      converted := converted b + 1\<rparr>)))"

definition convert_directory ::
    "('b \<Rightarrow> exn + element) \<Rightarrow> 'b docx_file dirent list \<Rightarrow> exn + batch" where
  "convert_directory fromstring input_dir =
     foldl (convert_step fromstring) (Inr \<lparr>written = [], converted = 0, skipped = 0\<rparr>)
       (iter_docx_files input_dir)"

section \<open>The merge utility\<close>

text \<open>
  \<open>Path.read_text\<close> is a parameter: \<open>read_text enc data\<close> is the text of a file with
  bytes \<open>data\<close> under the strict decoder \<open>enc\<close>, or \<open>None\<close> for
  \<open>UnicodeDecodeError\<close>; \<open>read_replace data\<close> is the text under UTF-8 with
  \<open>errors="replace"\<close>, which substitutes U+FFFD and has no decoding error.
\<close>

datatype encoding = UTF_8 | UTF_8_SIG | GB18030

fun try_encodings :: "(encoding \<Rightarrow> 'b \<Rightarrow> pystr option) \<Rightarrow> encoding list \<Rightarrow> 'b \<Rightarrow> pystr option" where
  "try_encodings read_text [] data = None"
| "try_encodings read_text (enc # encs) data =
     (case read_text enc data of
        Some s \<Rightarrow> Some s
      | None \<Rightarrow> try_encodings read_text encs data)"

definition read_text_with_fallback ::
    "(encoding \<Rightarrow> 'b \<Rightarrow> pystr option) \<Rightarrow> ('b \<Rightarrow> pystr) \<Rightarrow> 'b \<Rightarrow> pystr" where
  "read_text_with_fallback read_text read_replace data =
     (case try_encodings read_text [UTF_8, UTF_8_SIG, GB18030] data of
        Some s \<Rightarrow> s
      | None \<Rightarrow> read_replace data)"

text \<open>
  \<open>str.lower()\<close> on the ASCII letters.  The suffix is only compared with \<open>.txt\<close>, and
  no character outside ASCII has \<open>.\<close>, \<open>t\<close> or \<open>x\<close> as its lower case.
\<close>

definition lower :: "pystr \<Rightarrow> pystr" where
  "lower s = map (\<lambda>c. if 65 \<le> c \<and> c \<le> 90 then c + 32 else c) s"

definition is_txt_file :: "'c dirent \<Rightarrow> bool" where
  "is_txt_file p \<longleftrightarrow> is_file p \<and> lower (suffix_of (name p)) = py ''.txt''"

text \<open>The loop \<open>for i, p in enumerate(txt_files)\<close>, from index \<open>i\<close> on.\<close>

fun merge_loop ::
    "(encoding \<Rightarrow> 'b \<Rightarrow> pystr option) \<Rightarrow> ('b \<Rightarrow> pystr) \<Rightarrow> nat \<Rightarrow> pystr list \<Rightarrow> 'b dirent list
      \<Rightarrow> pystr list" where
  "merge_loop read_text read_replace i merged_parts [] = merged_parts"
| "merge_loop read_text read_replace i merged_parts (p # ps) =
     (let txt = read_text_with_fallback read_text read_replace (content p);
          merged_parts =
            (if i \<noteq> 0 \<and> merged_parts \<noteq> [] \<and> \<not> endswith (last merged_parts) [NL]
             then merged_parts @ [[NL]] else merged_parts);
          merged_parts = (if i \<noteq> 0 then merged_parts @ [[NL]] else merged_parts);
          merged_parts = merged_parts @ [txt]
      in merge_loop read_text read_replace (i + 1) merged_parts ps)"

text \<open>
  \<open>merge_txt_files\<close>: \<open>src_dir\<close> is \<open>None\<close> when the path does not exist or is not a
  directory.  The result is the text written to \<open>out_file\<close> and the returned count.
\<close>

definition merge_txt_files ::
    "(encoding \<Rightarrow> 'b \<Rightarrow> pystr option) \<Rightarrow> ('b \<Rightarrow> pystr) \<Rightarrow> 'b dirent list option
      \<Rightarrow> exn + (pystr \<times> nat)" where
  "merge_txt_files read_text read_replace src_dir =
     (case src_dir of
        None \<Rightarrow> Inl FileNotFoundError
      | Some entries \<Rightarrow>
          (let txt_files = sort_key name (filter is_txt_file entries);
               merged_parts = merge_loop read_text read_replace 0 [] txt_files
           in Inr (join [] merged_parts, length txt_files)))"

section \<open>Notions used to state the properties\<close>

text \<open>A blank directly before a newline, and three newlines in a row.\<close>

fun has_blank_nl :: "pystr \<Rightarrow> bool" where
  "has_blank_nl (a # b # cs) = ((is_blank a \<and> b = NL) \<or> has_blank_nl (b # cs))"
| "has_blank_nl _ = False"

fun has_nl3 :: "pystr \<Rightarrow> bool" where
  "has_nl3 (a # b # c # cs) = ((a = NL \<and> b = NL \<and> c = NL) \<or> has_nl3 (b # c # cs))"
| "has_nl3 _ = False"

text \<open>The lines of a text, as \<open>s.split("\n")\<close> gives them.\<close>

fun split_nl :: "pystr \<Rightarrow> pystr list" where
  "split_nl [] = [[]]"
| "split_nl (c # cs) =
     (if c = NL then [] # split_nl cs
      else (case split_nl cs of [] \<Rightarrow> [[c]] | l # ls \<Rightarrow> (c # l) # ls))"

definition ends_blank :: "pystr \<Rightarrow> bool" where
  "ends_blank l \<longleftrightarrow> l \<noteq> [] \<and> is_blank (last l)"

text \<open>A text has visible content when some character of it is not whitespace.\<close>

definition visible :: "pystr \<Rightarrow> bool" where
  "visible s \<longleftrightarrow> \<not> list_all is_space s"

text \<open>The paragraph elements of a tree in document order, the root included.\<close>

definition paragraph_elements :: "element \<Rightarrow> element list" where
  "paragraph_elements e = filter (\<lambda>n. tag n = qn ''p'') (iter e)"

text \<open>What one node of a paragraph contributes to its line.\<close>

definition fragment :: "element \<Rightarrow> pystr" where
  "fragment node =
     (if tag node = qn ''t'' then (case text_of node of None \<Rightarrow> [] | Some t \<Rightarrow> t)
      else if tag node = qn ''tab'' then [TAB]
      else if tag node = qn ''br'' \<or> tag node = qn ''cr'' then [NL]
      else [])"

text \<open>A text without line boundaries.\<close>

definition single_line :: "pystr \<Rightarrow> bool" where
  "single_line s \<longleftrightarrow> list_all (\<lambda>c. \<not> is_linebreak c) s"

text \<open>\<open>s.rstrip(" \t")\<close>: what the first substitution leaves of a line.\<close>

definition rstrip_blanks :: "pystr \<Rightarrow> pystr" where
  "rstrip_blanks s = rev (dropWhile is_blank (rev s))"

text \<open>
  Horizontal whitespace in the sense of Unicode: the tab, the space, the no-break space
  and the other space separators.  Only the first two are blanks.
\<close>

definition is_hspace :: "nat \<Rightarrow> bool" where
  "is_hspace c \<longleftrightarrow>
     c = TAB \<or> c = SP \<or> c = 160 \<or> c = 5760 \<or> (8192 \<le> c \<and> c \<le> 8202) \<or> c = 8239
     \<or> c = 8287 \<or> c = 12288"

definition ends_hspace :: "pystr \<Rightarrow> bool" where
  "ends_hspace l \<longleftrightarrow> l \<noteq> [] \<and> is_hspace (last l)"

text \<open>
  The markup of a paragraph: \<open>w:p\<close> and \<open>w:r\<close> with their children, a \<open>w:t\<close> with
  its text, and the empty elements \<open>w:tab\<close> and \<open>w:br\<close>.
\<close>

definition par :: "element list \<Rightarrow> element" where
  "par kids = Element (qn ''p'') None kids"

definition run :: "element list \<Rightarrow> element" where
  "run kids = Element (qn ''r'') None kids"

definition text_node :: "pystr \<Rightarrow> element" where
  "text_node s = Element (qn ''t'') (Some s) []"

definition tab_node :: element where
  "tab_node = Element (qn ''tab'') None []"

definition br_node :: element where
  "br_node = Element (qn ''br'') None []"

text \<open>
  The paragraph lines that one round of the loop over the supplementary parts adds for
  a name: those of the tree that \<open>_read_xml_from_docx\<close> returns for it, none when it
  returns \<open>None\<close>.  \<open>part_raises\<close> says that the call raises instead.
\<close>

definition part_paragraphs ::
    "('b \<Rightarrow> exn + element) \<Rightarrow> 'b docx_file \<Rightarrow> pystr \<Rightarrow> pystr list" where
  "part_paragraphs fromstring docx inner =
     (case read_xml_from_docx fromstring docx inner of
        Inr (Some extra) \<Rightarrow> extract_paragraphs_from_xml extra
      | _ \<Rightarrow> [])"

definition part_raises ::
    "('b \<Rightarrow> exn + element) \<Rightarrow> 'b docx_file \<Rightarrow> pystr \<Rightarrow> bool" where
  "part_raises fromstring docx inner \<longleftrightarrow> isl (read_xml_from_docx fromstring docx inner)"

text \<open>The paragraph lines of the data of one entry, whatever its name.\<close>

definition member_paragraphs :: "('b \<Rightarrow> exn + element) \<Rightarrow> exn + 'b \<Rightarrow> pystr list" where
  "member_paragraphs fromstring member =
     (case member of
        Inl e \<Rightarrow> []
      | Inr data \<Rightarrow>
          (case fromstring data of
             Inl e \<Rightarrow> []
           | Inr root \<Rightarrow> extract_paragraphs_from_xml root))"

text \<open>
  The properties of the text that \<open>to_text\<close> puts before its final newline: no blank
  before a newline, no three newlines in a row, no whitespace at either end, and no
  line boundary other than the newline.
\<close>

definition normal_body :: "pystr \<Rightarrow> bool" where
  "normal_body s \<longleftrightarrow>
     \<not> has_blank_nl s \<and> \<not> has_nl3 s
     \<and> (s = [] \<or> (\<not> is_space (hd s) \<and> \<not> is_space (last s)))
     \<and> (\<forall>x\<in>set s. is_linebreak x \<longrightarrow> x = NL)"

text \<open>The value of \<open>text.strip()\<close> in the last line of \<open>to_text\<close>.\<close>

definition body :: "pystr list \<Rightarrow> pystr" where
  "body ps = strip (re_sub_nl3 (re_sub_blank_nl (join [NL] (collect_lines ps))))"

section \<open>Whitespace, stripping and the two substitutions\<close>

lemma not_blank_NL [simp]: "\<not> is_blank NL"
  by (simp add: is_blank_def)

lemma is_space_NL [simp]: "is_space NL"
  by (simp add: is_space_def)

lemma blank_is_space: "is_blank c \<Longrightarrow> is_space c"
  by (auto simp: is_blank_def is_space_def)

lemma linebreak_is_space: "is_linebreak c \<Longrightarrow> is_space c"
  by (auto simp: is_linebreak_def is_space_def)

lemma is_linebreak_NL [simp]: "is_linebreak NL"
  by (simp add: is_linebreak_def)

lemma has_blank_nl_Cons:
  "has_blank_nl (a # s) \<longleftrightarrow> (is_blank a \<and> (\<exists>r. s = NL # r)) \<or> has_blank_nl s"
  by (cases s) auto

lemma has_nl3_Cons:
  "has_nl3 (a # s) \<longleftrightarrow> (a = NL \<and> (\<exists>r. s = NL # NL # r)) \<or> has_nl3 s"
proof (cases s)
  case Nil then show ?thesis by simp
next
  case (Cons b t) then show ?thesis by (cases t) auto
qed

lemma has_blank_nl_appendI2: "has_blank_nl s \<Longrightarrow> has_blank_nl (p @ s)"
  by (induction p) (auto simp: has_blank_nl_Cons)

lemma has_blank_nl_appendI1: "has_blank_nl s \<Longrightarrow> has_blank_nl (s @ q)"
  by (induction s) (auto simp: has_blank_nl_Cons)

lemma has_nl3_appendI2: "has_nl3 s \<Longrightarrow> has_nl3 (p @ s)"
  by (induction p) (auto simp: has_nl3_Cons)

lemma has_nl3_appendI1: "has_nl3 s \<Longrightarrow> has_nl3 (s @ q)"
  by (induction s) (auto simp: has_nl3_Cons)

lemma has_blank_nl_snoc:
  "has_blank_nl (s @ [NL]) \<longleftrightarrow> has_blank_nl s \<or> (s \<noteq> [] \<and> is_blank (last s))"
  by (induction s) (auto simp: has_blank_nl_Cons append_eq_Cons_conv)

lemma has_nl3_snoc:
  "has_nl3 (s @ [NL]) \<Longrightarrow> has_nl3 s \<or> (s \<noteq> [] \<and> last s = NL)"
  by (induction s) (auto simp: has_nl3_Cons append_eq_Cons_conv split: if_splits)

lemma re_sub_blank_nl_hd:
  "re_sub_blank_nl cs = NL # r \<Longrightarrow> \<exists>ds. dropWhile is_blank cs = NL # ds"
  by (cases cs) (auto split: if_splits list.splits)

lemma re_sub_blank_nl_clean: "\<not> has_blank_nl (re_sub_blank_nl s)"
proof (induction s rule: re_sub_blank_nl.induct)
  case 1
  show ?case by simp
next
  case (2 c cs)
  show ?case
  proof (cases "is_blank c \<and> (\<exists>ds. dropWhile is_blank cs = NL # ds)")
    case True
    then obtain ds where ds: "dropWhile is_blank cs = NL # ds" by blast
    with True 2 show ?thesis by (simp add: has_blank_nl_Cons)
  next
    case False
    then have eq: "re_sub_blank_nl (c # cs) = c # re_sub_blank_nl cs"
      by (auto split: list.splits)
    have ih: "\<not> has_blank_nl (re_sub_blank_nl cs)"
      using False 2 by (cases "is_blank c"; cases "dropWhile is_blank cs") auto
    show ?thesis
      using False ih re_sub_blank_nl_hd [of cs] unfolding eq
      by (auto simp: has_blank_nl_Cons)
  qed
qed

lemma blank_run_nl:
  "is_blank c \<Longrightarrow> dropWhile is_blank cs = NL # ds \<Longrightarrow> has_blank_nl (c # cs)"
  by (induction cs arbitrary: c) (auto split: if_splits)

lemma re_sub_blank_nl_id: "\<not> has_blank_nl s \<Longrightarrow> re_sub_blank_nl s = s"
proof (induction s rule: re_sub_blank_nl.induct)
  case 1
  show ?case by simp
next
  case (2 c cs)
  have nomatch: "\<not> (is_blank c \<and> (\<exists>ds. dropWhile is_blank cs = NL # ds))"
    using "2.prems" blank_run_nl by blast
  have rest: "\<not> has_blank_nl cs"
    using "2.prems" by (simp add: has_blank_nl_Cons)
  have "re_sub_blank_nl cs = cs"
    using nomatch rest "2.IH"
    by (cases "is_blank c"; cases "dropWhile is_blank cs") auto
  with nomatch show ?case by (auto split: list.splits)
qed

lemma re_sub_nl3_hd: "re_sub_nl3 z = a # r \<Longrightarrow> \<exists>z'. z = a # z'"
  by (cases z) (auto split: if_splits)

lemma take2_NL: "take 2 cs = [NL, NL] \<longleftrightarrow> (\<exists>r. cs = NL # NL # r)"
proof (cases cs)
  case Nil then show ?thesis by simp
next
  case (Cons b t) then show ?thesis by (cases t) auto
qed

lemma dropWhile_NL_hd: "dropWhile (\<lambda>x. x = NL) cs \<noteq> NL # r"
  by (induction cs) (auto split: if_splits)

lemma re_sub_nl3_clean: "\<not> has_nl3 (re_sub_nl3 s)"
proof (induction s rule: re_sub_nl3.induct)
  case 1
  show ?case by simp
next
  case (2 c cs)
  show ?case
  proof (cases "c = NL \<and> take 2 cs = [NL, NL]")
    case True
    have "\<not> has_nl3 (re_sub_nl3 (dropWhile (\<lambda>x. x = NL) cs))"
      using True 2 by simp
    moreover have "re_sub_nl3 (dropWhile (\<lambda>x. x = NL) cs) \<noteq> NL # r" for r
      using re_sub_nl3_hd dropWhile_NL_hd by blast
    ultimately show ?thesis
      using True by (simp add: has_nl3_Cons)
  next
    case False
    then have eq: "re_sub_nl3 (c # cs) = c # re_sub_nl3 cs"
      by auto
    have ih: "\<not> has_nl3 (re_sub_nl3 cs)"
      using False 2 by auto
    have "\<not> (c = NL \<and> (\<exists>r. re_sub_nl3 cs = NL # NL # r))"
    proof
      assume a: "c = NL \<and> (\<exists>r. re_sub_nl3 cs = NL # NL # r)"
      then obtain r where r: "re_sub_nl3 cs = NL # NL # r" by blast
      then obtain cs' where cs: "cs = NL # cs'" using re_sub_nl3_hd by blast
      show False
      proof (cases "take 2 cs' = [NL, NL]")
        case True
        with cs a False show False by (auto simp: take2_NL)
      next
        case F: False
        with r cs have "re_sub_nl3 cs' = NL # r" by simp
        then obtain t where "cs' = NL # t" using re_sub_nl3_hd by blast
        with cs a False show False by simp
      qed
    qed
    with ih show ?thesis unfolding eq by (simp add: has_nl3_Cons)
  qed
qed

lemma re_sub_nl3_id: "\<not> has_nl3 s \<Longrightarrow> re_sub_nl3 s = s"
proof (induction s rule: re_sub_nl3.induct)
  case 1
  show ?case by simp
next
  case (2 c cs)
  have nomatch: "\<not> (c = NL \<and> take 2 cs = [NL, NL])"
    using "2.prems" by (auto simp: take2_NL)
  moreover have "\<not> has_nl3 cs"
    using "2.prems" by (simp add: has_nl3_Cons)
  ultimately show ?case using "2.IH" by auto
qed

lemma has_blank_nl_dropWhile: "has_blank_nl (dropWhile P s) \<Longrightarrow> has_blank_nl s"
  using has_blank_nl_appendI2 [of "dropWhile P s" "takeWhile P s"] by simp

lemma has_nl3_dropWhile: "has_nl3 (dropWhile P s) \<Longrightarrow> has_nl3 s"
  using has_nl3_appendI2 [of "dropWhile P s" "takeWhile P s"] by simp

lemma re_sub_nl3_keeps_clean: "\<not> has_blank_nl s \<Longrightarrow> \<not> has_blank_nl (re_sub_nl3 s)"
proof (induction s rule: re_sub_nl3.induct)
  case 1
  show ?case by simp
next
  case (2 c cs)
  have rest: "\<not> has_blank_nl cs"
    using "2.prems" by (simp add: has_blank_nl_Cons)
  show ?case
  proof (cases "c = NL \<and> take 2 cs = [NL, NL]")
    case True
    have "\<not> has_blank_nl (dropWhile (\<lambda>x. x = NL) cs)"
      using rest has_blank_nl_dropWhile by blast
    with True "2.IH" show ?thesis by (simp add: has_blank_nl_Cons)
  next
    case False
    then have eq: "re_sub_nl3 (c # cs) = c # re_sub_nl3 cs"
      by auto
    have ih: "\<not> has_blank_nl (re_sub_nl3 cs)"
      using False rest "2.IH" by auto
    have "\<not> (is_blank c \<and> (\<exists>r. re_sub_nl3 cs = NL # r))"
      using "2.prems" re_sub_nl3_hd [of cs NL] by (auto simp: has_blank_nl_Cons)
    with ih show ?thesis unfolding eq by (simp add: has_blank_nl_Cons)
  qed
qed

lemma rstrip_prefix: "s = rstrip s @ rev (takeWhile is_space (rev s))"
proof -
  have "rev (dropWhile is_space (rev s)) @ rev (takeWhile is_space (rev s))
          = rev (takeWhile is_space (rev s) @ dropWhile is_space (rev s))"
    by (simp only: rev_append)
  also have "\<dots> = rev (rev s)"
    by (simp only: takeWhile_dropWhile_id)
  finally show ?thesis by (simp add: rstrip_def)
qed

lemma lstrip_suffix: "s = takeWhile is_space s @ lstrip s"
  by (simp add: lstrip_def)

lemma strip_factor: "\<exists>a b. s = a @ strip s @ b"
proof -
  have "lstrip s = strip s @ rev (takeWhile is_space (rev (lstrip s)))"
    unfolding strip_def by (rule rstrip_prefix)
  then have "s = takeWhile is_space s @ strip s @ rev (takeWhile is_space (rev (lstrip s)))"
    using lstrip_suffix [of s] by simp
  then show ?thesis by blast
qed

lemma rstrip_last: "rstrip s \<noteq> [] \<Longrightarrow> \<not> is_space (last (rstrip s))"
  using hd_dropWhile [of is_space "rev s"] by (simp add: rstrip_def last_rev)

lemma lstrip_hd: "lstrip s \<noteq> [] \<Longrightarrow> \<not> is_space (hd (lstrip s))"
  using hd_dropWhile [of is_space s] by (simp add: lstrip_def)

lemma rstrip_hd: "rstrip s \<noteq> [] \<Longrightarrow> hd (rstrip s) = hd s"
  using rstrip_prefix [of s] by (metis hd_append2)

lemma strip_last: "strip s \<noteq> [] \<Longrightarrow> \<not> is_space (last (strip s))"
  unfolding strip_def by (rule rstrip_last)

lemma strip_hd: "strip s \<noteq> [] \<Longrightarrow> \<not> is_space (hd (strip s))"
proof -
  assume a: "strip s \<noteq> []"
  then have "lstrip s \<noteq> []" by (auto simp: strip_def rstrip_def)
  then have "\<not> is_space (hd (lstrip s))" by (rule lstrip_hd)
  moreover have "hd (strip s) = hd (lstrip s)"
    using a unfolding strip_def by (rule rstrip_hd)
  ultimately show ?thesis by simp
qed

lemma strip_id: "s = [] \<or> (\<not> is_space (hd s) \<and> \<not> is_space (last s)) \<Longrightarrow> strip s = s"
proof (cases s)
  case Nil
  then show ?thesis by (simp add: strip_def lstrip_def rstrip_def)
next
  case (Cons a t)
  assume "s = [] \<or> (\<not> is_space (hd s) \<and> \<not> is_space (last s))"
  with Cons have h: "\<not> is_space a" and l: "\<not> is_space (last s)" by auto
  have "lstrip s = s" using Cons h by (simp add: lstrip_def)
  moreover have "rstrip s = s"
  proof -
    obtain x xs where r: "rev s = x # xs" using Cons by (cases "rev s") auto
    have "hd (rev s) = last s" using Cons by (simp add: hd_rev)
    with r l have "\<not> is_space x" by simp
    then have "dropWhile is_space (x # xs) = x # xs" by simp
    then have "dropWhile is_space (rev s) = rev s" by (simp only: r)
    then show ?thesis by (simp add: rstrip_def)
  qed
  ultimately show ?thesis by (simp add: strip_def)
qed

lemma set_strip: "set (strip s) \<subseteq> set s"
proof -
  obtain a b where "s = a @ strip s @ b" using strip_factor by blast
  then have "set s = set a \<union> set (strip s) \<union> set b" by (metis set_append Un_assoc)
  then show ?thesis by blast
qed

lemma set_re_sub_blank_nl: "set (re_sub_blank_nl s) \<subseteq> set s"
proof (induction s rule: re_sub_blank_nl.induct)
  case 1
  show ?case by simp
next
  case (2 c cs)
  show ?case
  proof (cases "is_blank c \<and> (\<exists>ds. dropWhile is_blank cs = NL # ds)")
    case True
    then obtain ds where ds: "dropWhile is_blank cs = NL # ds" by blast
    have "set (dropWhile is_blank cs) \<subseteq> set cs"
      by (meson set_dropWhileD subsetI)
    with ds have "NL \<in> set cs" and "set ds \<subseteq> set cs" by auto
    moreover have "set (re_sub_blank_nl ds) \<subseteq> set ds"
      using True ds "2.IH" by simp
    ultimately show ?thesis using True ds by auto
  next
    case False
    then have eq: "re_sub_blank_nl (c # cs) = c # re_sub_blank_nl cs"
      by (auto split: list.splits)
    have ih: "set (re_sub_blank_nl cs) \<subseteq> set cs"
      using False "2.IH" by (cases "is_blank c"; cases "dropWhile is_blank cs") auto
    show ?thesis unfolding eq using ih by auto
  qed
qed

lemma set_re_sub_nl3: "set (re_sub_nl3 s) \<subseteq> set s"
proof (induction s rule: re_sub_nl3.induct)
  case 1
  show ?case by simp
next
  case (2 c cs)
  have "set (dropWhile (\<lambda>x. x = NL) cs) \<subseteq> set cs"
    by (meson set_dropWhileD subsetI)
  with 2 show ?case by auto
qed

lemma set_join: "set (join sep ls) \<subseteq> set sep \<union> \<Union> (set ` set ls)"
  by (induction sep ls rule: join.induct) auto

lemma collect_lines_concat: "collect_lines ps = concat (map splitlines ps)"
proof -
  have "foldl (\<lambda>lines paragraph. lines @ splitlines paragraph) acc ps
          = acc @ concat (map splitlines ps)" for acc
    by (induction ps arbitrary: acc) simp_all
  then show ?thesis by (simp add: collect_lines_def)
qed

lemma splitlines_clean: "l \<in> set (splitlines s) \<Longrightarrow> x \<in> set l \<Longrightarrow> \<not> is_linebreak x"
proof (induction s rule: splitlines.induct)
  case 1
  then show ?case by simp
next
  case (2 c cs)
  let ?line = "takeWhile (\<lambda>x. \<not> is_linebreak x) (c # cs)"
  have line: "x \<in> set ?line \<Longrightarrow> \<not> is_linebreak x"
    by (auto dest: set_takeWhileD)
  show ?case
  proof (cases "dropWhile (\<lambda>x. \<not> is_linebreak x) (c # cs)")
    case Nil
    with "2.prems" line show ?thesis by (simp add: Let_def)
  next
    case (Cons d ds)
    show ?thesis
    proof (cases ds)
      case Nil
      with Cons "2.prems" line show ?thesis by (simp add: Let_def)
    next
      case C2: (Cons e es)
      show ?thesis
      proof (cases "d = CR \<and> e = NL")
        case True
        with Cons C2 "2.prems" have "l = ?line \<or> l \<in> set (splitlines es)"
          by (simp add: Let_def)
        with line "2.IH"(2) [OF refl Cons C2 True] "2.prems"(2) show ?thesis by blast
      next
        case False
        with Cons C2 "2.prems" have "l = ?line \<or> l \<in> set (splitlines ds)"
          by (auto simp add: Let_def)
        with line "2.IH"(3) [OF refl Cons C2 False] "2.prems"(2) show ?thesis by blast
      qed
    qed
  qed
qed

lemma splitlines_line_NL:
  assumes "\<forall>x\<in>set l. \<not> is_linebreak x"
  shows "splitlines (l @ NL # rest) = l # splitlines rest"
proof -
  have tw: "takeWhile (\<lambda>x. \<not> is_linebreak x) (l @ NL # rest) = l"
    using assms by (simp add: takeWhile_append2)
  have dw: "dropWhile (\<lambda>x. \<not> is_linebreak x) (l @ NL # rest) = NL # rest"
    using assms by (simp add: dropWhile_append2)
  obtain c cs where ccs: "l @ NL # rest = c # cs" by (cases l) auto
  show ?thesis
    unfolding ccs using tw dw unfolding ccs by (cases rest) (simp_all add: Let_def)
qed

lemma splitlines_Cons_ne: "splitlines (c # cs) \<noteq> []"
proof -
  let ?D = "dropWhile (\<lambda>x. \<not> is_linebreak x) (c # cs)"
  show ?thesis
  proof (cases ?D)
    case Nil
    then show ?thesis by (simp only: splitlines.simps(2) Let_def list.case) simp
  next
    case (Cons d ds)
    show ?thesis
    proof (cases ds)
      case Nil
      with Cons show ?thesis by (simp only: splitlines.simps(2) Let_def list.case) simp
    next
      case C2: (Cons e es)
      with Cons show ?thesis
        by (simp only: splitlines.simps(2) Let_def list.case split: if_splits) simp
    qed
  qed
qed

lemma splitlines_ne: "s \<noteq> [] \<Longrightarrow> splitlines s \<noteq> []"
  using splitlines_Cons_ne by (cases s) blast+

lemma split_at_NL:
  "\<forall>x\<in>set s. is_linebreak x \<longrightarrow> x = NL \<Longrightarrow>
     (\<forall>x\<in>set s. \<not> is_linebreak x) \<or>
     (\<exists>l rest. s = l @ NL # rest \<and> (\<forall>x\<in>set l. \<not> is_linebreak x))"
proof (induction s)
  case Nil
  show ?case by simp
next
  case (Cons c cs)
  show ?case
  proof (cases "is_linebreak c")
    case True
    with Cons.prems have "c = NL" by simp
    then have "c # cs = [] @ NL # cs \<and> (\<forall>x\<in>set []. \<not> is_linebreak x)" by simp
    then show ?thesis by blast
  next
    case False
    from Cons.prems have "\<forall>x\<in>set cs. is_linebreak x \<longrightarrow> x = NL" by simp
    from Cons.IH [OF this] show ?thesis
    proof
      assume "\<forall>x\<in>set cs. \<not> is_linebreak x"
      with False show ?thesis by simp
    next
      assume "\<exists>l rest. cs = l @ NL # rest \<and> (\<forall>x\<in>set l. \<not> is_linebreak x)"
      then obtain l rest where "cs = l @ NL # rest" "\<forall>x\<in>set l. \<not> is_linebreak x"
        by blast
      with False have "c # cs = (c # l) @ NL # rest \<and> (\<forall>x\<in>set (c # l). \<not> is_linebreak x)"
        by simp
      then show ?thesis by blast
    qed
  qed
qed

lemma join_splitlines_snoc:
  "\<forall>x\<in>set s. is_linebreak x \<longrightarrow> x = NL \<Longrightarrow> join [NL] (splitlines (s @ [NL])) = s"
proof (induction s rule: length_induct)
  case (1 s)
  from split_at_NL [OF "1.prems"] show ?case
  proof
    assume clean: "\<forall>x\<in>set s. \<not> is_linebreak x"
    have "splitlines (s @ NL # []) = s # splitlines []"
      using clean by (rule splitlines_line_NL)
    then show ?thesis by simp
  next
    assume "\<exists>l rest. s = l @ NL # rest \<and> (\<forall>x\<in>set l. \<not> is_linebreak x)"
    then obtain l rest where s: "s = l @ NL # rest" and l: "\<forall>x\<in>set l. \<not> is_linebreak x"
      by blast
    have len: "length rest < length s"
      by (simp add: s)
    have "\<forall>x\<in>set rest. is_linebreak x \<longrightarrow> x = NL"
      using "1.prems" by (simp add: s)
    with "1.IH" len have ih: "join [NL] (splitlines (rest @ [NL])) = rest" by blast
    obtain y ys where ne: "splitlines (rest @ [NL]) = y # ys"
      using splitlines_ne [of "rest @ [NL]"] by (cases "splitlines (rest @ [NL])") auto
    have "splitlines (l @ NL # (rest @ [NL])) = l # splitlines (rest @ [NL])"
      using l by (rule splitlines_line_NL)
    then have "join [NL] (splitlines (l @ NL # (rest @ [NL]))) = l @ [NL] @ join [NL] (y # ys)"
      by (simp add: ne)
    also have "\<dots> = l @ NL # rest"
      using ih by (simp add: ne)
    finally show ?thesis by (simp add: s)
  qed
qed

section \<open>The normal form of the normalizer\<close>


lemma split_nl_ne: "split_nl s \<noteq> []"
  by (induction s) (auto split: list.splits)

lemma split_nl_hd_Nil:
  "split_nl s = l # ls \<Longrightarrow> l = [] \<longleftrightarrow> (s = [] \<or> (\<exists>r. s = NL # r))"
  by (cases s) (auto split: if_splits list.splits)

lemma ends_blank_Cons: "ends_blank (c # l) \<longleftrightarrow> (l = [] \<and> is_blank c) \<or> ends_blank l"
  by (auto simp: ends_blank_def)

lemma lines_blank_free:
  "(\<forall>l\<in>set (split_nl s). \<not> ends_blank l) \<longleftrightarrow> \<not> has_blank_nl s \<and> \<not> ends_blank s"
proof (induction s)
  case Nil
  show ?case by (simp add: ends_blank_def)
next
  case (Cons c cs)
  obtain l ls where sp: "split_nl cs = l # ls"
    using split_nl_ne [of cs] by (cases "split_nl cs") auto
  show ?case
  proof (cases "c = NL")
    case True
    have "\<not> ends_blank (NL # cs) \<longleftrightarrow> \<not> ends_blank cs"
      by (simp add: ends_blank_Cons)
    moreover have "\<not> ends_blank []" by (simp add: ends_blank_def)
    ultimately show ?thesis using True Cons by (simp add: has_blank_nl_Cons)
  next
    case False
    have "(\<forall>x\<in>set (split_nl (c # cs)). \<not> ends_blank x)
            \<longleftrightarrow> \<not> ends_blank (c # l) \<and> (\<forall>x\<in>set ls. \<not> ends_blank x)"
      using False sp by simp
    also have "\<dots> \<longleftrightarrow> \<not> (l = [] \<and> is_blank c) \<and> (\<forall>x\<in>set (split_nl cs). \<not> ends_blank x)"
      using sp by (auto simp: ends_blank_Cons)
    also have "\<dots> \<longleftrightarrow> \<not> (l = [] \<and> is_blank c) \<and> \<not> has_blank_nl cs \<and> \<not> ends_blank cs"
      using Cons by simp
    also have "\<dots> \<longleftrightarrow> \<not> has_blank_nl (c # cs) \<and> \<not> ends_blank (c # cs)"
      using split_nl_hd_Nil [OF sp] by (auto simp: has_blank_nl_Cons ends_blank_Cons)
    finally show ?thesis .
  qed
qed

lemma has_nl3_factor: "s = pre @ [NL, NL, NL] @ post \<Longrightarrow> has_nl3 s"
  using has_nl3_appendI2 [of "[NL, NL, NL] @ post" pre] by simp

lemma to_text_body: "to_text d = body (paragraphs d) @ [NL]"
  by (simp add: to_text_def body_def Let_def)

lemma joined_linebreaks:
  "x \<in> set (join [NL] (collect_lines ps)) \<Longrightarrow> is_linebreak x \<Longrightarrow> x = NL"
proof -
  assume x: "x \<in> set (join [NL] (collect_lines ps))" and lb: "is_linebreak x"
  from x set_join [of "[NL]" "collect_lines ps"]
  have "x = NL \<or> (\<exists>l\<in>set (collect_lines ps). x \<in> set l)" by auto
  then show "x = NL"
  proof
    assume "x = NL" then show ?thesis .
  next
    assume "\<exists>l\<in>set (collect_lines ps). x \<in> set l"
    then obtain l p where "l \<in> set (splitlines p)" "x \<in> set l"
      by (auto simp: collect_lines_concat)
    with splitlines_clean lb show ?thesis by blast
  qed
qed

lemma strip_no_blank_nl: "\<not> has_blank_nl s \<Longrightarrow> \<not> has_blank_nl (strip s)"
proof -
  obtain a b where f: "s = a @ strip s @ b" using strip_factor by blast
  assume "\<not> has_blank_nl s"
  then show ?thesis
    using has_blank_nl_appendI2 [of "strip s @ b" a] has_blank_nl_appendI1 [of "strip s" b] f
    by auto
qed

lemma strip_no_nl3: "\<not> has_nl3 s \<Longrightarrow> \<not> has_nl3 (strip s)"
proof -
  obtain a b where f: "s = a @ strip s @ b" using strip_factor by blast
  assume "\<not> has_nl3 s"
  then show ?thesis
    using has_nl3_appendI2 [of "strip s @ b" a] has_nl3_appendI1 [of "strip s" b] f
    by auto
qed

lemma normal_body_body: "normal_body (body ps)"
proof -
  let ?j = "join [NL] (collect_lines ps)"
  let ?k = "re_sub_nl3 (re_sub_blank_nl ?j)"
  have 1: "\<not> has_blank_nl (body ps)"
    unfolding body_def
    by (intro strip_no_blank_nl re_sub_nl3_keeps_clean re_sub_blank_nl_clean)
  have 2: "\<not> has_nl3 (body ps)"
    unfolding body_def by (intro strip_no_nl3 re_sub_nl3_clean)
  have 3: "body ps = [] \<or> (\<not> is_space (hd (body ps)) \<and> \<not> is_space (last (body ps)))"
    unfolding body_def using strip_hd strip_last by blast
  have "set (body ps) \<subseteq> set ?j"
    unfolding body_def using set_strip set_re_sub_nl3 set_re_sub_blank_nl by blast
  then have 4: "\<forall>x\<in>set (body ps). is_linebreak x \<longrightarrow> x = NL"
    using joined_linebreaks by blast
  from 1 2 3 4 show ?thesis by (simp add: normal_body_def)
qed

lemma normal_body_fixed:
  assumes "normal_body s"
  shows "body [s @ [NL]] = s"
proof -
  have "collect_lines [s @ [NL]] = splitlines (s @ [NL])"
    by (simp add: collect_lines_def)
  moreover have "join [NL] (splitlines (s @ [NL])) = s"
    using assms by (intro join_splitlines_snoc) (simp add: normal_body_def)
  moreover have "re_sub_blank_nl s = s"
    using assms by (intro re_sub_blank_nl_id) (simp add: normal_body_def)
  moreover have "re_sub_nl3 s = s"
    using assms by (intro re_sub_nl3_id) (simp add: normal_body_def)
  moreover have "strip s = s"
    using assms by (intro strip_id) (simp add: normal_body_def)
  ultimately show ?thesis by (simp add: body_def)
qed

lemma not_ends_NL: "normal_body s \<Longrightarrow> s = [] \<or> last s \<noteq> NL"
  by (auto simp: normal_body_def)

section \<open>The paragraph loop and stripping\<close>


lemma join_Nil: "join [] xs = concat xs"
  by (induction "[]::pystr" xs rule: join.induct) simp_all

lemma concat_emit_step: "concat (emit_step out node) = concat out @ fragment node"
  by (cases "text_of node") (simp_all add: emit_step_def fragment_def)

lemma concat_foldl_emit:
  "concat (foldl emit_step out nodes) = concat out @ concat (map fragment nodes)"
  by (induction nodes arbitrary: out) (simp_all add: concat_emit_step)

lemma extract_paragraph_text_fragments:
  "extract_paragraph_text p = strip (concat (map fragment (iter p)))"
  by (simp add: extract_paragraph_text_def emitted_def join_Nil concat_foldl_emit)

lemma extract_paragraph_text_emitted:
  "extract_paragraph_text p = strip (concat (emitted p))"
  by (simp add: extract_paragraph_text_def join_Nil)

lemma foldl_snoc_map: "foldl (\<lambda>acc x. acc @ [f x]) acc xs = acc @ map f xs"
  by (induction xs arbitrary: acc) simp_all

lemma tl_iter: "tl (iter e) = concat (map iter (children e))"
  by (cases e) simp

lemma findall_descendants_children:
  "findall_descendants t root = concat (map (\<lambda>c. filter (\<lambda>e. tag e = t) (iter c)) (children root))"
  by (simp add: findall_descendants_def tl_iter filter_concat comp_def)

lemma extract_paragraphs_descendants:
  "extract_paragraphs_from_xml root
     = map extract_paragraph_text (concat (map paragraph_elements (children root)))"
proof -
  have "(\<lambda>c. filter (\<lambda>e. tag e = qn ''p'') (iter c)) = paragraph_elements"
    by (rule ext) (simp add: paragraph_elements_def)
  then show ?thesis
    by (simp add: extract_paragraphs_from_xml_def foldl_snoc_map findall_descendants_children)
qed


lemma lstrip_space_Cons: "is_space c \<Longrightarrow> lstrip (c # s) = lstrip s"
  by (simp add: lstrip_def)

lemma rstrip_space_snoc: "is_space c \<Longrightarrow> rstrip (s @ [c]) = rstrip s"
  by (simp add: rstrip_def)

lemma lstrip_Nil_iff: "lstrip s = [] \<longleftrightarrow> list_all is_space s"
  by (simp add: lstrip_def list_all_iff)

lemma strip_all_space: "list_all is_space s \<Longrightarrow> strip s = []"
proof -
  assume "list_all is_space s"
  then have "lstrip s = []" by (simp only: lstrip_Nil_iff)
  then show ?thesis by (simp add: strip_def rstrip_def)
qed

lemma strip_space_Cons: "is_space c \<Longrightarrow> strip (c # s) = strip s"
  by (simp add: strip_def lstrip_space_Cons)

lemma lstrip_snoc_space:
  "is_space c \<Longrightarrow> rstrip (lstrip (s @ [c])) = rstrip (lstrip s)"
proof (cases "list_all is_space s")
  case True
  assume "is_space c"
  with True have "list_all is_space (s @ [c])" by simp
  then have "lstrip (s @ [c]) = []" by (simp only: lstrip_Nil_iff)
  moreover from True have "lstrip s = []" by (simp only: lstrip_Nil_iff)
  ultimately show ?thesis by simp
next
  case False
  assume c: "is_space c"
  from False have "lstrip (s @ [c]) = lstrip s @ [c]"
    by (auto simp: lstrip_def list_all_iff dropWhile_append1)
  with c show ?thesis by (simp add: rstrip_space_snoc)
qed

lemma strip_space_snoc: "is_space c \<Longrightarrow> strip (s @ [c]) = strip s"
  by (simp add: strip_def lstrip_snoc_space)

lemma lstrip_visible_append: "visible a \<Longrightarrow> lstrip (a @ b) = lstrip a @ b"
  by (auto simp: visible_def lstrip_def list_all_iff dropWhile_append1)

lemma rstrip_visible_append: "visible b \<Longrightarrow> rstrip (a @ b) = a @ rstrip b"
  by (auto simp: visible_def rstrip_def list_all_iff dropWhile_append1)

lemma strip_between:
  "visible a \<Longrightarrow> visible b \<Longrightarrow> strip (a @ m @ b) = lstrip a @ m @ rstrip b"
proof -
  assume a: "visible a" and b: "visible b"
  have "lstrip (a @ m @ b) = lstrip a @ m @ b"
    using a by (rule lstrip_visible_append)
  moreover have "rstrip ((lstrip a @ m) @ b) = (lstrip a @ m) @ rstrip b"
    using b by (rule rstrip_visible_append)
  ultimately show ?thesis by (simp add: strip_def)
qed

section \<open>Texts of one and of two lines\<close>

lemma splitlines_single:
  assumes "s \<noteq> []" and "\<forall>x\<in>set s. \<not> is_linebreak x"
  shows "splitlines s = [s]"
proof -
  obtain c cs where s: "s = c # cs" using assms(1) by (cases s) auto
  have d: "dropWhile (\<lambda>x. \<not> is_linebreak x) (c # cs) = []"
    using assms(2) unfolding s by (simp only: dropWhile_eq_Nil_conv)
  have t: "takeWhile (\<lambda>x. \<not> is_linebreak x) (c # cs) = c # cs"
    using assms(2) unfolding s by (simp only: takeWhile_eq_all_conv)
  show ?thesis
    unfolding s by (simp only: splitlines.simps(2) Let_def d t list.case)
qed

lemma no_NL_no_blank_nl: "NL \<notin> set s \<Longrightarrow> \<not> has_blank_nl s"
  by (induction s) (auto simp: has_blank_nl_Cons)

lemma no_NL_no_nl3: "NL \<notin> set s \<Longrightarrow> \<not> has_nl3 s"
  by (induction s) (auto simp: has_nl3_Cons)

lemma has_nl3_mid:
  "NL \<notin> set a \<Longrightarrow> NL \<notin> set b \<Longrightarrow> \<not> has_nl3 (a @ NL # b)"
proof (induction a)
  case Nil
  then show ?case using no_NL_no_nl3 [of b] by (auto simp: has_nl3_Cons)
next
  case (Cons c a)
  then show ?case by (auto simp: has_nl3_Cons)
qed

lemma single_line_no_NL: "single_line s \<Longrightarrow> NL \<notin> set s"
  by (auto simp: single_line_def list_all_iff)

lemma single_line_clean: "single_line s \<Longrightarrow> \<forall>x\<in>set s. \<not> is_linebreak x"
  by (auto simp: single_line_def list_all_iff)

lemma single_line_subset: "single_line s \<Longrightarrow> set t \<subseteq> set s \<Longrightarrow> single_line t"
  by (auto simp: single_line_def list_all_iff)

lemma set_lstrip: "set (lstrip s) \<subseteq> set s"
  by (auto simp: lstrip_def dest: set_dropWhileD)

lemma set_rstrip: "set (rstrip s) \<subseteq> set s"
  using set_dropWhileD [of _ is_space "rev s"] by (auto simp: rstrip_def)

lemma set_rstrip_blanks: "set (rstrip_blanks s) \<subseteq> set s"
  using set_dropWhileD [of _ is_blank "rev s"] by (auto simp: rstrip_blanks_def)

lemma rstrip_Nil_iff: "rstrip s = [] \<longleftrightarrow> list_all is_space s"
  by (simp add: rstrip_def list_all_iff)

lemma visible_lstrip: "visible s \<Longrightarrow> lstrip s \<noteq> [] \<and> \<not> is_space (hd (lstrip s))"
  using lstrip_hd [of s] by (simp add: visible_def lstrip_Nil_iff)

lemma visible_rstrip: "visible s \<Longrightarrow> rstrip s \<noteq> [] \<and> \<not> is_space (last (rstrip s))"
  using rstrip_last [of s] by (simp add: visible_def rstrip_Nil_iff)

lemma rstrip_blanks_Cons:
  "rstrip_blanks (c # s) = (if is_blank c \<and> list_all is_blank s then [] else c # rstrip_blanks s)"
proof (cases "list_all is_blank s")
  case True
  then have "dropWhile is_blank (rev s @ [c]) = dropWhile is_blank [c]"
    by (intro dropWhile_append2) (simp add: list_all_iff)
  moreover from True have "dropWhile is_blank (rev s) = []"
    by (simp add: list_all_iff)
  ultimately show ?thesis using True by (simp add: rstrip_blanks_def)
next
  case False
  then obtain x where "x \<in> set (rev s)" "\<not> is_blank x" by (auto simp: list_all_iff)
  then have "dropWhile is_blank (rev s @ [c]) = dropWhile is_blank (rev s) @ [c]"
    by (rule dropWhile_append1)
  then show ?thesis using False by (simp add: rstrip_blanks_def)
qed

lemma re_sub_blank_nl_line:
  "NL \<notin> set a \<Longrightarrow> re_sub_blank_nl (a @ NL # b) = rstrip_blanks a @ NL # re_sub_blank_nl b"
proof (induction a)
  case Nil
  show ?case by (simp add: rstrip_blanks_def)
next
  case (Cons c a)
  then have ih: "re_sub_blank_nl (a @ NL # b) = rstrip_blanks a @ NL # re_sub_blank_nl b"
    and nl: "NL \<notin> set a" by simp_all
  show ?case
  proof (cases "is_blank c")
    case False
    then show ?thesis by (simp add: ih rstrip_blanks_Cons)
  next
    case True
    show ?thesis
    proof (cases "list_all is_blank a")
      case all: True
      then have "dropWhile is_blank (a @ NL # b) = dropWhile is_blank (NL # b)"
        by (intro dropWhile_append2) (simp add: list_all_iff)
      then have "dropWhile is_blank (a @ NL # b) = NL # b" by simp
      then show ?thesis using True all by (simp add: rstrip_blanks_Cons)
    next
      case some: False
      then obtain x where x: "x \<in> set a" "\<not> is_blank x" by (auto simp: list_all_iff)
      then have d: "dropWhile is_blank (a @ NL # b) = dropWhile is_blank a @ NL # b"
        by (rule dropWhile_append1)
      from x have "dropWhile is_blank a \<noteq> []" by auto
      then obtain y ys where y: "dropWhile is_blank a = y # ys"
        by (cases "dropWhile is_blank a") auto
      then have "y \<in> set a" by (metis list.set_intros(1) set_dropWhileD)
      with nl have "y \<noteq> NL" by auto
      with d y have "re_sub_blank_nl (c # a @ NL # b) = c # re_sub_blank_nl (a @ NL # b)"
        using True by simp
      then show ?thesis using some by (simp add: ih rstrip_blanks_Cons)
    qed
  qed
qed

lemma rstrip_blanks_hd:
  "s \<noteq> [] \<Longrightarrow> \<not> is_space (hd s) \<Longrightarrow> rstrip_blanks s \<noteq> [] \<and> hd (rstrip_blanks s) = hd s"
  using blank_is_space by (cases s) (auto simp: rstrip_blanks_Cons)

lemma body_two_lines:
  assumes a: "a \<noteq> []" "\<not> is_space (hd a)" "single_line a"
    and b: "b \<noteq> []" "\<not> is_space (last b)" "single_line b"
  shows "body [a @ NL # b] = rstrip_blanks a @ NL # b"
proof -
  have na: "NL \<notin> set a" and nb: "NL \<notin> set b"
    using a(3) b(3) by (simp_all add: single_line_no_NL)
  have "splitlines (a @ NL # b) = a # splitlines b"
    using single_line_clean [OF a(3)] by (rule splitlines_line_NL)
  also have "splitlines b = [b]"
    using b(1) single_line_clean [OF b(3)] by (rule splitlines_single)
  finally have j: "join [NL] (collect_lines [a @ NL # b]) = a @ NL # b"
    by (simp add: collect_lines_def)
  have "re_sub_blank_nl b = b"
    using nb by (intro re_sub_blank_nl_id no_NL_no_blank_nl)
  then have r1: "re_sub_blank_nl (a @ NL # b) = rstrip_blanks a @ NL # b"
    using re_sub_blank_nl_line [OF na, of b] by simp
  have "NL \<notin> set (rstrip_blanks a)" using na set_rstrip_blanks [of a] by auto
  then have "\<not> has_nl3 (rstrip_blanks a @ NL # b)"
    using nb by (intro has_nl3_mid)
  then have r2: "re_sub_nl3 (rstrip_blanks a @ NL # b) = rstrip_blanks a @ NL # b"
    by (rule re_sub_nl3_id)
  have h: "rstrip_blanks a \<noteq> [] \<and> hd (rstrip_blanks a) = hd a"
    using a(1,2) by (rule rstrip_blanks_hd)
  then have "hd (rstrip_blanks a @ NL # b) = hd a" by simp
  moreover have "last (rstrip_blanks a @ NL # b) = last b" using b(1) by simp
  ultimately have "\<not> is_space (hd (rstrip_blanks a @ NL # b))
      \<and> \<not> is_space (last (rstrip_blanks a @ NL # b))"
    using a(2) b(2) by simp
  then have r3: "strip (rstrip_blanks a @ NL # b) = rstrip_blanks a @ NL # b"
    by (intro strip_id) simp
  show ?thesis by (simp add: body_def j r1 r2 r3)
qed

text \<open>The definitions a concrete tree is evaluated with.\<close>

lemmas eval_xml = par_def run_def text_node_def tab_node_def br_node_def paragraph_elements_def
  extract_paragraph_text_def extract_paragraphs_from_xml_def findall_descendants_def
  emitted_def emit_step_def fragment_def qn_def

lemma emitted_tab_example:
  "a \<noteq> [] \<Longrightarrow> b \<noteq> [] \<Longrightarrow>
   emitted (par [run [text_node a], run [tab_node], run [text_node b]]) = [a, [TAB], b]"
  by (simp add: eval_xml py_def)

lemma emitted_br_example:
  "a \<noteq> [] \<Longrightarrow> b \<noteq> [] \<Longrightarrow>
   emitted (par [run [text_node a], run [br_node], run [text_node b]]) = [a, [NL], b]"
  by (simp add: eval_xml py_def)

section \<open>Properties of the text normalizer\<close>


text \<open>The definitions a concrete text is evaluated with.\<close>

lemmas eval_text = to_text_def collect_lines_def py_def is_linebreak_def is_blank_def
  strip_def lstrip_def rstrip_def is_space_def Let_def

text \<open>
  C6 (as stated, refuted).  The claim lets no line end in horizontal whitespace.  The
  normalizer removes only spaces and tabs before a newline: a line that ends in the
  ideographic space U+3000 or the no-break space U+00A0 keeps it.
\<close>

theorem to_text_trailing_space_counterexample:
  "to_text \<lparr>paragraphs = [[97, 12288], [98, 160], [99]]\<rparr>
     = [97, 12288, NL, 98, 160, NL, 99, NL]
   \<and> split_nl (to_text \<lparr>paragraphs = [[97, 12288], [98, 160], [99]]\<rparr>)
     = [[97, 12288], [98, 160], [99], []]
   \<and> list_ex ends_hspace (split_nl (to_text \<lparr>paragraphs = [[97, 12288], [98, 160], [99]]\<rparr>))"
proof -
  have v: "to_text \<lparr>paragraphs = [[97, 12288], [98, 160], [99]]\<rparr>
     = [97, 12288, NL, 98, 160, NL, 99, NL]"
    by (simp add: eval_text)
  show ?thesis
    by (simp only: v) (simp add: ends_hspace_def is_hspace_def)
qed

text \<open>
  C6 (amended).  Whatever the paragraph list, the text \<open>to_text\<close> returns has no line
  ending in a space or a tab, has no three newline characters in a row, and ends with
  exactly one newline: the text before the final newline does not itself end with one.
  The newline is the only line boundary in it, so its lines are the pieces between
  newlines.
\<close>

theorem to_text_invariants:
  "(\<forall>l\<in>set (split_nl (to_text d)). \<not> ends_blank l)
   \<and> (\<nexists>pre post. to_text d = pre @ [NL, NL, NL] @ post)
   \<and> (\<exists>b. to_text d = b @ [NL] \<and> \<not> endswith b [NL])
   \<and> (\<forall>c\<in>set (to_text d). is_linebreak c \<longrightarrow> c = NL)"
proof -
  let ?b = "body (paragraphs d)"
  have nb: "normal_body ?b" by (rule normal_body_body)
  have t: "to_text d = ?b @ [NL]" by (rule to_text_body)
  have last_ok: "?b = [] \<or> \<not> is_space (last ?b)"
    using nb by (auto simp: normal_body_def)
  have "\<not> has_blank_nl (?b @ [NL])"
    using nb last_ok blank_is_space by (auto simp: has_blank_nl_snoc normal_body_def)
  moreover have "\<not> ends_blank (?b @ [NL])"
    by (simp add: ends_blank_def)
  ultimately have a: "\<forall>l\<in>set (split_nl (to_text d)). \<not> ends_blank l"
    unfolding t lines_blank_free by simp
  have "\<not> has_nl3 (?b @ [NL])"
    using nb last_ok has_nl3_snoc [of ?b] by (auto simp: normal_body_def)
  then have b: "\<nexists>pre post. to_text d = pre @ [NL, NL, NL] @ post"
    unfolding t using has_nl3_factor by blast
  have "\<not> endswith ?b [NL]"
  proof
    assume e: "endswith ?b [NL]"
    then have ne: "?b \<noteq> []" by (auto simp: endswith_def)
    from e have "drop (length ?b - 1) ?b = [NL]" by (simp add: endswith_def)
    moreover have "last (drop (length ?b - 1) ?b) = last ?b"
      using ne by (simp add: last_drop)
    ultimately have "last ?b = NL" by simp
    with last_ok ne show False by simp
  qed
  with t have c: "\<exists>b. to_text d = b @ [NL] \<and> \<not> endswith b [NL]" by blast
  have d: "\<forall>c\<in>set (to_text d). is_linebreak c \<longrightarrow> c = NL"
    using nb by (auto simp: t normal_body_def)
  show ?thesis by (rule conjI [OF a conjI [OF b conjI [OF c d]]])
qed

theorem to_text_invariants_witness:
  "to_text \<lparr>paragraphs = [py ''a  '' @ [NL, NL, NL, NL] @ py '' b '', [TAB], py ''c'']\<rparr>
     = py ''a'' @ [NL, NL] @ py '' b'' @ [NL, NL] @ py ''c'' @ [NL]
   \<and> list_all (\<lambda>l. \<not> ends_blank l) (split_nl (to_text
         \<lparr>paragraphs = [py ''a  '' @ [NL, NL, NL, NL] @ py '' b '', [TAB], py ''c'']\<rparr>))
   \<and> (\<nexists>pre post. to_text
         \<lparr>paragraphs = [py ''a  '' @ [NL, NL, NL, NL] @ py '' b '', [TAB], py ''c'']\<rparr>
         = pre @ [NL, NL, NL] @ post)
   \<and> (\<exists>b. to_text
         \<lparr>paragraphs = [py ''a  '' @ [NL, NL, NL, NL] @ py '' b '', [TAB], py ''c'']\<rparr>
         = b @ [NL] \<and> \<not> endswith b [NL])
   \<and> list_all (\<lambda>c. \<not> is_linebreak c \<or> c = NL) (to_text
         \<lparr>paragraphs = [py ''a  '' @ [NL, NL, NL, NL] @ py '' b '', [TAB], py ''c'']\<rparr>)"
proof -
  let ?d = "\<lparr>paragraphs = [py ''a  '' @ [NL, NL, NL, NL] @ py '' b '', [TAB], py ''c'']\<rparr>"
  have v: "to_text ?d = py ''a'' @ [NL, NL] @ py '' b'' @ [NL, NL] @ py ''c'' @ [NL]"
    by (simp add: eval_text)
  have h: "(\<forall>l\<in>set (split_nl (to_text ?d)). \<not> ends_blank l)
           \<and> (\<nexists>pre post. to_text ?d = pre @ [NL, NL, NL] @ post)
           \<and> (\<exists>b. to_text ?d = b @ [NL] \<and> \<not> endswith b [NL])
           \<and> (\<forall>c\<in>set (to_text ?d). is_linebreak c \<longrightarrow> c = NL)"
    by (rule to_text_invariants)
  have a: "list_all (\<lambda>l. \<not> ends_blank l) (split_nl (to_text ?d))"
    unfolding list_all_iff by (rule conjunct1 [OF h])
  have b: "\<nexists>pre post. to_text ?d = pre @ [NL, NL, NL] @ post"
    by (rule conjunct1 [OF conjunct2 [OF h]])
  have c: "\<exists>b. to_text ?d = b @ [NL] \<and> \<not> endswith b [NL]"
    by (rule conjunct1 [OF conjunct2 [OF conjunct2 [OF h]]])
  have "\<forall>c\<in>set (to_text ?d). is_linebreak c \<longrightarrow> c = NL"
    by (rule conjunct2 [OF conjunct2 [OF conjunct2 [OF h]]])
  then have d: "list_all (\<lambda>c. \<not> is_linebreak c \<or> c = NL) (to_text ?d)"
    unfolding list_all_iff by blast
  show ?thesis
    by (rule conjI [OF v conjI [OF a conjI [OF b conjI [OF c d]]]])
qed

text \<open>
  C7.  The normalizer is idempotent: \<open>to_text\<close> applied to the one-element paragraph
  list holding its own output returns that output.
\<close>

theorem to_text_idempotent:
  "to_text \<lparr>paragraphs = [to_text \<lparr>paragraphs = ps\<rparr>]\<rparr> = to_text \<lparr>paragraphs = ps\<rparr>"
  using normal_body_fixed [OF normal_body_body, of ps] by (simp add: to_text_body)

theorem to_text_idempotent_witness:
  "to_text \<lparr>paragraphs = [py ''a  '' @ [NL, NL, NL, NL] @ py '' b '', [TAB], py ''c'']\<rparr>
     = py ''a'' @ [NL, NL] @ py '' b'' @ [NL, NL] @ py ''c'' @ [NL]
   \<and> to_text \<lparr>paragraphs =
         [to_text \<lparr>paragraphs = [py ''a  '' @ [NL, NL, NL, NL] @ py '' b '', [TAB], py ''c'']\<rparr>]\<rparr>
     = to_text \<lparr>paragraphs = [py ''a  '' @ [NL, NL, NL, NL] @ py '' b '', [TAB], py ''c'']\<rparr>"
proof -
  have v: "to_text \<lparr>paragraphs = [py ''a  '' @ [NL, NL, NL, NL] @ py '' b '', [TAB], py ''c'']\<rparr>
     = py ''a'' @ [NL, NL] @ py '' b'' @ [NL, NL] @ py ''c'' @ [NL]"
    by (simp add: eval_text)
  show ?thesis by (rule conjI [OF v to_text_idempotent])
qed

section \<open>Properties of the paragraph text extractor\<close>


text \<open>
  C1 (as stated, refuted).  The claim gives one line to every paragraph element of the
  tree.  A part whose root element is itself a paragraph has that paragraph in its tree,
  with the text \<open>x\<close>, and the extractor returns no line for it.
\<close>

theorem extract_paragraphs_root_counterexample:
  "paragraph_elements (par [run [text_node (py ''x'')]]) = [par [run [text_node (py ''x'')]]]
   \<and> extract_paragraph_text (par [run [text_node (py ''x'')]]) = py ''x''
   \<and> extract_paragraphs_from_xml (par [run [text_node (py ''x'')]]) = []"
  by (simp add: eval_xml py_def strip_def lstrip_def rstrip_def is_space_def)

text \<open>
  C1 (amended).  The extractor returns exactly one line per paragraph element that is a
  proper descendant of the root, in document order, paragraphs nested in tables or other
  containers included; a paragraph none of whose nodes is a text, tab or break node
  gives the empty line, and that line is kept in the list.
\<close>

theorem extract_paragraphs_from_xml_lines:
  "extract_paragraphs_from_xml root
     = map extract_paragraph_text (concat (map paragraph_elements (children root)))
   \<and> length (extract_paragraphs_from_xml root)
     = length (concat (map paragraph_elements (children root)))
   \<and> (list_all (\<lambda>n. tag n \<notin> set [qn ''t'', qn ''tab'', qn ''br'', qn ''cr'']) (iter p)
        \<longrightarrow> extract_paragraph_text p = [])"
proof -
  have eq: "extract_paragraphs_from_xml root
     = map extract_paragraph_text (concat (map paragraph_elements (children root)))"
    by (rule extract_paragraphs_descendants)
  have empty: "extract_paragraph_text p = []"
    if "list_all (\<lambda>n. tag n \<notin> set [qn ''t'', qn ''tab'', qn ''br'', qn ''cr'']) (iter p)"
  proof -
    have "\<forall>n\<in>set (iter p). fragment n = []"
      using that by (auto simp: list_all_iff fragment_def)
    then have c: "concat (map fragment (iter p)) = []" by simp
    show ?thesis
      by (simp only: extract_paragraph_text_fragments c) (simp add: strip_def lstrip_def rstrip_def)
  qed
  have len: "length (extract_paragraphs_from_xml root)
     = length (concat (map paragraph_elements (children root)))"
    by (simp only: eq length_map)
  show ?thesis
    using eq len empty by blast
qed

theorem extract_paragraphs_from_xml_lines_witness:
  "extract_paragraphs_from_xml
     (Element (qn ''body'') None
        [par [run [text_node (py '' a'')], run [tab_node], run [text_node (py ''b '')]],
         par [run []],
         Element (qn ''tbl'') None
           [Element (qn ''tr'') None
              [par [run [br_node, text_node (py ''x''), br_node, text_node (py ''y'')]]]]])
     = [py ''a'' @ [TAB] @ py ''b'', [], py ''x'' @ [NL] @ py ''y'']
   \<and> extract_paragraph_text (par [run []]) = []"
proof -
  let ?root = "Element (qn ''body'') None
        [par [run [text_node (py '' a'')], run [tab_node], run [text_node (py ''b '')]],
         par [run []],
         Element (qn ''tbl'') None
           [Element (qn ''tr'') None
              [par [run [br_node, text_node (py ''x''), br_node, text_node (py ''y'')]]]]]"
  note inst = extract_paragraphs_from_xml_lines [of ?root "par [run []]"]
  have "map extract_paragraph_text (concat (map paragraph_elements (children ?root)))
          = [py ''a'' @ [TAB] @ py ''b'', [], py ''x'' @ [NL] @ py ''y'']"
    by (simp add: eval_xml py_def strip_def lstrip_def rstrip_def is_space_def)
  with inst have a: "extract_paragraphs_from_xml ?root
          = [py ''a'' @ [TAB] @ py ''b'', [], py ''x'' @ [NL] @ py ''y'']"
    by (simp only:)
  have "list_all (\<lambda>n. tag n \<notin> set [qn ''t'', qn ''tab'', qn ''br'', qn ''cr''])
          (iter (par [run []]))"
    by (simp add: eval_xml py_def)
  with inst have b: "extract_paragraph_text (par [run []]) = []"
    by blast
  show ?thesis by (rule conjI [OF a b])
qed

text \<open>
  C2 (as stated, refuted).  The claim lets every break that is neither the first nor the
  last emitted fragment survive, a tab between two text runs give a line with that tab,
  and a break between two text runs give two lines of output.  Stripping the whole
  concatenation removes more: a tab behind a run that holds only a space is stripped
  with it; of two breaks at the end both go, also the one that is not the last
  fragment; and a break before a run that holds only a space leaves one line.
\<close>

theorem extract_paragraph_text_strip_counterexample:
  "extract_paragraph_text
       (par [run [text_node (py '' '')], run [tab_node], run [text_node (py ''b'')]])
     = py ''b''
   \<and> emitted (par [run [text_node (py ''a'')], run [br_node], run [br_node]])
     = [py ''a'', [NL], [NL]]
   \<and> extract_paragraph_text (par [run [text_node (py ''a'')], run [br_node], run [br_node]])
     = py ''a''
   \<and> to_text \<lparr>paragraphs = [extract_paragraph_text
         (par [run [text_node (py ''a'')], run [br_node], run [text_node (py '' '')]])]\<rparr>
     = py ''a'' @ [NL]"
  by (simp add: eval_xml eval_text)

text \<open>
  C2 (amended).  The line of a paragraph is the concatenation, in the order of
  \<open>iter\<close>, of the text of every \<open>w:t\<close> node, a tab per \<open>w:tab\<close> node and a newline
  per \<open>w:br\<close> or \<open>w:cr\<close> node, stripped as a whole.  A break that is the first or the
  last emitted fragment disappears; a break or a tab with visible text before and after
  it stays inside the line.  A tab node between two text runs that both hold visible
  text gives the two texts, stripped at their outer ends, with a tab between them, one
  line when the runs hold no line boundary; a break between two such runs gives two
  lines of normalized output.
\<close>

theorem extract_paragraph_text_tokens:
  "extract_paragraph_text p = strip (concat (map fragment (iter p)))
   \<and> (\<forall>rest. emitted p = [NL] # rest \<longrightarrow> extract_paragraph_text p = strip (concat rest))
   \<and> (\<forall>rest. emitted p = rest @ [[NL]] \<longrightarrow> extract_paragraph_text p = strip (concat rest))
   \<and> (\<forall>pre post. emitted p = pre @ [NL] # post \<and> visible (concat pre) \<and> visible (concat post)
         \<longrightarrow> extract_paragraph_text p = lstrip (concat pre) @ [NL] @ rstrip (concat post))
   \<and> (\<forall>pre post. emitted p = pre @ [TAB] # post \<and> visible (concat pre) \<and> visible (concat post)
         \<longrightarrow> extract_paragraph_text p = lstrip (concat pre) @ [TAB] @ rstrip (concat post))
   \<and> (visible a \<and> visible b \<longrightarrow>
         extract_paragraph_text (par [run [text_node a], run [tab_node], run [text_node b]])
           = lstrip a @ [TAB] @ rstrip b
         \<and> (single_line a \<and> single_line b \<longrightarrow>
              splitlines (lstrip a @ [TAB] @ rstrip b) = [lstrip a @ [TAB] @ rstrip b]))
   \<and> (visible a \<and> visible b \<and> single_line a \<and> single_line b \<longrightarrow>
         extract_paragraph_text (par [run [text_node a], run [br_node], run [text_node b]])
           = lstrip a @ [NL] @ rstrip b
         \<and> to_text \<lparr>paragraphs =
              [extract_paragraph_text (par [run [text_node a], run [br_node], run [text_node b]])]\<rparr>
           = rstrip_blanks (lstrip a) @ [NL] @ rstrip b @ [NL]
         \<and> rstrip_blanks (lstrip a) \<noteq> [] \<and> NL \<notin> set (rstrip_blanks (lstrip a))
         \<and> rstrip b \<noteq> [] \<and> NL \<notin> set (rstrip b))"
proof -
  have c1: "extract_paragraph_text p = strip (concat (map fragment (iter p)))"
    by (rule extract_paragraph_text_fragments)
  have c2: "extract_paragraph_text p = strip (concat rest)" if "emitted p = [NL] # rest" for rest
    using that by (simp add: extract_paragraph_text_emitted strip_space_Cons)
  have c3: "extract_paragraph_text p = strip (concat rest)" if "emitted p = rest @ [[NL]]" for rest
    using that strip_space_snoc [of NL "concat rest"] by (simp add: extract_paragraph_text_emitted)
  have c4: "extract_paragraph_text p = lstrip (concat pre) @ [NL] @ rstrip (concat post)"
    if "emitted p = pre @ [NL] # post" "visible (concat pre)" "visible (concat post)" for pre post
    using that strip_between [of "concat pre" "concat post" "[NL]"]
    by (simp add: extract_paragraph_text_emitted)
  have c4t: "extract_paragraph_text p = lstrip (concat pre) @ [TAB] @ rstrip (concat post)"
    if "emitted p = pre @ [TAB] # post" "visible (concat pre)" "visible (concat post)" for pre post
    using that strip_between [of "concat pre" "concat post" "[TAB]"]
    by (simp add: extract_paragraph_text_emitted)
  have ne: "a \<noteq> [] \<and> b \<noteq> []" if "visible a" "visible b"
    using that by (auto simp: visible_def)
  have c5a: "extract_paragraph_text (par [run [text_node a], run [tab_node], run [text_node b]])
           = lstrip a @ [TAB] @ rstrip b" if "visible a" "visible b"
    using strip_between [OF that, of "[TAB]"] ne [OF that]
    by (simp add: extract_paragraph_text_emitted emitted_tab_example)
  have c5b: "splitlines (lstrip a @ [TAB] @ rstrip b) = [lstrip a @ [TAB] @ rstrip b]"
    if "single_line a" "single_line b"
  proof (rule splitlines_single)
    show "lstrip a @ [TAB] @ rstrip b \<noteq> []" by simp
    have "\<forall>x\<in>set (lstrip a). \<not> is_linebreak x"
      using single_line_clean [OF that(1)] set_lstrip [of a] by blast
    moreover have "\<forall>x\<in>set (rstrip b). \<not> is_linebreak x"
      using single_line_clean [OF that(2)] set_rstrip [of b] by blast
    ultimately show "\<forall>x\<in>set (lstrip a @ [TAB] @ rstrip b). \<not> is_linebreak x"
      by (auto simp: is_linebreak_def)
  qed
  have c6a: "extract_paragraph_text (par [run [text_node a], run [br_node], run [text_node b]])
           = lstrip a @ [NL] @ rstrip b" if "visible a" "visible b"
    using strip_between [OF that, of "[NL]"] ne [OF that]
    by (simp add: extract_paragraph_text_emitted emitted_br_example)
  have two: "body [lstrip a @ NL # rstrip b] = rstrip_blanks (lstrip a) @ NL # rstrip b"
    if "visible a" "visible b" "single_line a" "single_line b"
  proof (rule body_two_lines)
    show "lstrip a \<noteq> []" "\<not> is_space (hd (lstrip a))"
      using visible_lstrip [OF that(1)] by simp_all
    show "rstrip b \<noteq> []" "\<not> is_space (last (rstrip b))"
      using visible_rstrip [OF that(2)] by simp_all
    show "single_line (lstrip a)"
      using that(3) set_lstrip by (rule single_line_subset)
    show "single_line (rstrip b)"
      using that(4) set_rstrip by (rule single_line_subset)
  qed
  have c6b: "to_text \<lparr>paragraphs =
              [extract_paragraph_text (par [run [text_node a], run [br_node], run [text_node b]])]\<rparr>
           = rstrip_blanks (lstrip a) @ [NL] @ rstrip b @ [NL]"
    if "visible a" "visible b" "single_line a" "single_line b"
    using two [OF that] by (simp add: c6a [OF that(1,2)] to_text_body)
  have c6c: "rstrip_blanks (lstrip a) \<noteq> [] \<and> NL \<notin> set (rstrip_blanks (lstrip a))"
    if "visible a" "single_line a"
  proof -
    have "rstrip_blanks (lstrip a) \<noteq> []"
      using visible_lstrip [OF that(1)] rstrip_blanks_hd [of "lstrip a"] by simp
    moreover have "set (rstrip_blanks (lstrip a)) \<subseteq> set a"
      using set_rstrip_blanks [of "lstrip a"] set_lstrip [of a] by blast
    ultimately show ?thesis using single_line_no_NL [OF that(2)] by blast
  qed
  have c6d: "rstrip b \<noteq> [] \<and> NL \<notin> set (rstrip b)" if "visible b" "single_line b"
    using visible_rstrip [OF that(1)] set_rstrip [of b] single_line_no_NL [OF that(2)] by blast
  show ?thesis
    using c1 c2 c3 c4 c4t c5a c5b c6a c6b c6c c6d by blast
qed

theorem extract_paragraph_text_tokens_witness:
  "extract_paragraph_text (par [run [br_node, text_node (py ''a'')]]) = py ''a''
   \<and> extract_paragraph_text (par [run [text_node (py ''a''), br_node]]) = py ''a''
   \<and> extract_paragraph_text (par [run [text_node (py '' a''), br_node, text_node (py ''b '')]])
       = py ''a'' @ [NL] @ py ''b''
   \<and> extract_paragraph_text
         (par [run [text_node (py '' Hello world '')], run [tab_node], run [text_node (py '' bye '')]])
       = py ''Hello world '' @ [TAB] @ py '' bye''
   \<and> to_text \<lparr>paragraphs = [extract_paragraph_text
         (par [run [text_node (py '' Hello world '')], run [br_node], run [text_node (py '' bye '')]])]\<rparr>
       = py ''Hello world'' @ [NL] @ py '' bye'' @ [NL]"
proof -
  let ?p1 = "par [run [br_node, text_node (py ''a'')]]"
  let ?p2 = "par [run [text_node (py ''a''), br_node]]"
  let ?p3 = "par [run [text_node (py '' a''), br_node, text_node (py ''b '')]]"
  let ?a = "py '' Hello world ''"
  let ?b = "py '' bye ''"
  have e1: "emitted ?p1 = [NL] # [py ''a'']"
    by (simp add: eval_xml py_def)
  have e2: "emitted ?p2 = [py ''a''] @ [[NL]]"
    by (simp add: eval_xml py_def)
  have e3: "emitted ?p3 = [py '' a''] @ [NL] # [py ''b '']"
    by (simp add: eval_xml py_def)
  have v: "visible (concat [py '' a''])" "visible (concat [py ''b ''])"
    by (simp_all add: visible_def py_def is_space_def)
  have t: "visible ?a" "visible ?b" "single_line ?a" "single_line ?b"
    by (simp_all add: visible_def single_line_def py_def is_space_def is_linebreak_def)
  have "extract_paragraph_text ?p1 = strip (concat [py ''a''])"
    using extract_paragraph_text_tokens [of ?p1] e1 by blast
  then have w1: "extract_paragraph_text ?p1 = py ''a''"
    by (simp add: py_def strip_def lstrip_def rstrip_def is_space_def)
  have "extract_paragraph_text ?p2 = strip (concat [py ''a''])"
    using extract_paragraph_text_tokens [of ?p2] e2 by blast
  then have w2: "extract_paragraph_text ?p2 = py ''a''"
    by (simp add: py_def strip_def lstrip_def rstrip_def is_space_def)
  have "extract_paragraph_text ?p3 = lstrip (concat [py '' a'']) @ [NL] @ rstrip (concat [py ''b ''])"
    using extract_paragraph_text_tokens [of ?p3] e3 v by blast
  then have w3: "extract_paragraph_text ?p3 = py ''a'' @ [NL] @ py ''b''"
    by (simp add: py_def lstrip_def rstrip_def is_space_def)
  have "extract_paragraph_text (par [run [text_node ?a], run [tab_node], run [text_node ?b]])
       = lstrip ?a @ [TAB] @ rstrip ?b"
    using extract_paragraph_text_tokens [of _ ?a ?b] t by blast
  then have w4: "extract_paragraph_text (par [run [text_node ?a], run [tab_node], run [text_node ?b]])
       = py ''Hello world '' @ [TAB] @ py '' bye''"
    by (simp add: py_def lstrip_def rstrip_def is_space_def)
  have "to_text \<lparr>paragraphs = [extract_paragraph_text
         (par [run [text_node ?a], run [br_node], run [text_node ?b]])]\<rparr>
       = rstrip_blanks (lstrip ?a) @ [NL] @ rstrip ?b @ [NL]"
    using extract_paragraph_text_tokens [of _ ?a ?b] t by blast
  then have w5: "to_text \<lparr>paragraphs = [extract_paragraph_text
         (par [run [text_node ?a], run [br_node], run [text_node ?b]])]\<rparr>
       = py ''Hello world'' @ [NL] @ py '' bye'' @ [NL]"
    by (simp add: py_def lstrip_def rstrip_def rstrip_blanks_def is_space_def is_blank_def)
  show ?thesis
    by (rule conjI [OF w1 conjI [OF w2 conjI [OF w3 conjI [OF w4 w5]]]])
qed

section \<open>The part aggregator and the batch loop\<close>

lemma foldl_extra_step_Inl: "foldl (extra_step fs docx) (Inl e) names = Inl e"
  by (induction names) (simp_all add: extra_step_def)

lemma extra_step_no_raise:
  "\<not> part_raises fs docx n \<Longrightarrow>
   extra_step fs docx (Inr acc) n = Inr (acc @ part_paragraphs fs docx n)"
  by (cases "read_xml_from_docx fs docx n")
     (simp_all add: extra_step_def part_raises_def part_paragraphs_def split: option.splits)

lemma foldl_extra_step:
  "list_all (\<lambda>n. \<not> part_raises fs docx n) names \<Longrightarrow>
   foldl (extra_step fs docx) (Inr acc) names
     = Inr (acc @ concat (map (part_paragraphs fs docx) names))"
  by (induction names arbitrary: acc) (simp_all add: extra_step_no_raise)

lemma extra_step_None:
  "read_xml_from_docx fs docx n = Inr None \<Longrightarrow> extra_step fs docx st n = st"
  by (cases st) (simp_all add: extra_step_def)

lemma foldl_extra_step_skip:
  assumes "read_xml_from_docx fs docx n = Inr None"
    and "\<And>k. k \<noteq> n \<Longrightarrow> read_xml_from_docx fs docx' k = read_xml_from_docx fs docx k"
  shows "foldl (extra_step fs docx') st (filter (\<lambda>k. k \<noteq> n) names)
           = foldl (extra_step fs docx) st names"
proof (induction names arbitrary: st)
  case Nil
  show ?case by simp
next
  case (Cons k names)
  show ?case
  proof (cases "k = n")
    case True
    then show ?thesis using Cons [of st] by (simp add: extra_step_None [OF assms(1)])
  next
    case False
    then have "read_xml_from_docx fs docx' k = read_xml_from_docx fs docx k"
      by (rule assms(2))
    then have "extra_step fs docx' st k = extra_step fs docx st k"
      by (simp only: extra_step_def)
    then show ?thesis using False Cons by simp
  qed
qed

lemma read_xml_Some_ZipFile:
  "read_xml_from_docx fs docx inner = Inr (Some root) \<Longrightarrow> \<exists>entries. docx = ZipFile entries"
  by (cases docx) (simp_all add: read_xml_from_docx_def split: if_splits)

lemma extract_docx_text_None_iff:
  "extract_docx_text fs docx = Inr None
     \<longleftrightarrow> read_xml_from_docx fs docx DOCX_MAIN_DOCUMENT = Inr None"
proof (cases "read_xml_from_docx fs docx DOCX_MAIN_DOCUMENT")
  case (Inl e)
  then show ?thesis by (simp add: extract_docx_text_def)
next
  case (Inr r)
  show ?thesis
  proof (cases r)
    case None
    with Inr show ?thesis by (simp add: extract_docx_text_def)
  next
    case (Some main)
    with Inr obtain entries where "docx = ZipFile entries"
      using read_xml_Some_ZipFile by blast
    with Inr Some show ?thesis
      by (simp add: extract_docx_text_def Let_def split: sum.splits)
  qed
qed

lemma extract_docx_text_Some:
  assumes "read_xml_from_docx fs (ZipFile entries) DOCX_MAIN_DOCUMENT = Inr (Some main)"
    and "list_all (\<lambda>n. \<not> part_raises fs (ZipFile entries) n)
           (filter is_extra_xml (zf_namelist entries))"
  shows "extract_docx_text fs (ZipFile entries)
     = Inr (Some \<lparr>paragraphs = extract_paragraphs_from_xml main
          @ concat (map (part_paragraphs fs (ZipFile entries))
              (sort (filter is_extra_xml (zf_namelist entries))))\<rparr>)"
proof -
  have "list_all (\<lambda>n. \<not> part_raises fs (ZipFile entries) n)
          (sort (filter is_extra_xml (zf_namelist entries)))"
    using assms(2) by (simp add: list_all_iff)
  then show ?thesis
    using assms(1) by (simp add: extract_docx_text_def Let_def foldl_extra_step)
qed

lemma extract_docx_text_raises:
  "read_xml_from_docx fs docx DOCX_MAIN_DOCUMENT = Inl e \<Longrightarrow> extract_docx_text fs docx = Inl e"
  by (simp add: extract_docx_text_def)

text \<open>The batch loop.\<close>

lemma foldl_convert_step_Inl: "foldl (convert_step fs) (Inl e) files = Inl e"
  by (induction files) (simp_all add: convert_step_def)

text \<open>Reading from an archive without the entries of one name.\<close>

lemma map_of_filter_other:
  "k \<noteq> n \<Longrightarrow> map_of (filter (\<lambda>e. fst e \<noteq> n) xs) k = map_of xs k"
  by (induction xs) auto

lemma zf_read_filter_other:
  "k \<noteq> n \<Longrightarrow> zf_read (filter (\<lambda>e. fst e \<noteq> n) entries) k = zf_read entries k"
  by (simp add: zf_read_def rev_filter map_of_filter_other)

lemma read_xml_filter_other:
  "k \<noteq> n \<Longrightarrow>
   read_xml_from_docx fs (ZipFile (filter (\<lambda>e. fst e \<noteq> n) entries)) k
     = read_xml_from_docx fs (ZipFile entries) k"
  by (simp add: read_xml_from_docx_def zf_read_filter_other)

lemma zf_namelist_filter:
  "zf_namelist (filter (\<lambda>e. fst e \<noteq> n) entries) = filter (\<lambda>k. k \<noteq> n) (zf_namelist entries)"
  by (simp add: zf_namelist_def filter_map comp_def)

lemma main_not_extra: "\<not> is_extra_xml DOCX_MAIN_DOCUMENT"
  by (simp add: is_extra_xml_def DOCX_MAIN_DOCUMENT_def startswith_def py_def)

lemma extras_filter:
  "sort (filter is_extra_xml (filter (\<lambda>k. k \<noteq> n) names))
     = filter (\<lambda>k. k \<noteq> n) (sort (filter is_extra_xml names))"
proof -
  have "filter is_extra_xml (filter (\<lambda>k. k \<noteq> n) names)
          = filter (\<lambda>k. k \<noteq> n) (filter is_extra_xml names)"
    by (simp add: conj_commute)
  then show ?thesis by (simp only: filter_sort)
qed

lemma malformed_part_omitted:
  assumes ex: "is_extra_xml n"
    and bad: "read_xml_from_docx fs (ZipFile entries) n = Inr None"
  shows "extract_docx_text fs (ZipFile entries)
           = extract_docx_text fs (ZipFile (filter (\<lambda>e. fst e \<noteq> n) entries))"
proof -
  let ?entries' = "filter (\<lambda>e. fst e \<noteq> n) entries"
  have ne: "DOCX_MAIN_DOCUMENT \<noteq> n" using ex main_not_extra by auto
  have m: "read_xml_from_docx fs (ZipFile ?entries') DOCX_MAIN_DOCUMENT
             = read_xml_from_docx fs (ZipFile entries) DOCX_MAIN_DOCUMENT"
    using ne by (rule read_xml_filter_other)
  have loop: "foldl (extra_step fs (ZipFile ?entries')) st
                (sort (filter is_extra_xml (zf_namelist ?entries')))
              = foldl (extra_step fs (ZipFile entries)) st
                (sort (filter is_extra_xml (zf_namelist entries)))" for st
    unfolding zf_namelist_filter extras_filter
    using bad read_xml_filter_other by (rule foldl_extra_step_skip)
  show ?thesis
    by (simp only: extract_docx_text_def m loop Let_def docx_file.case)
qed

lemma startswith_shorter:
  "startswith n (p @ q) \<Longrightarrow> startswith n p"
proof -
  assume "startswith n (p @ q)"
  then have "take (length p + length q) n = p @ q" by (simp add: startswith_def)
  then have "take (length p) (take (length p + length q) n) = take (length p) (p @ q)" by simp
  then show ?thesis by (simp add: startswith_def min_def)
qed

lemma header_in_word_dir: "startswith n (py ''word/header'') \<Longrightarrow> startswith n DOCX_WORD_DIR"
  using startswith_shorter [of n "py ''word/''" "py ''header''"]
  by (simp add: DOCX_WORD_DIR_def py_def)

lemma footer_in_word_dir: "startswith n (py ''word/footer'') \<Longrightarrow> startswith n DOCX_WORD_DIR"
  using startswith_shorter [of n "py ''word/''" "py ''footer''"]
  by (simp add: DOCX_WORD_DIR_def py_def)

lemma is_extra_xml_iff:
  "is_extra_xml n \<longleftrightarrow>
     (startswith n (py ''word/header'') \<or> startswith n (py ''word/footer'')
        \<or> n = py ''word/footnotes.xml'' \<or> n = py ''word/endnotes.xml'')
     \<and> endswith n (py ''.xml'')"
proof -
  have "startswith (py ''word/footnotes.xml'') DOCX_WORD_DIR"
    and "startswith (py ''word/endnotes.xml'') DOCX_WORD_DIR"
    by (simp_all add: startswith_def DOCX_WORD_DIR_def py_def)
  then show ?thesis
    using header_in_word_dir [of n] footer_in_word_dir [of n]
    by (auto simp: is_extra_xml_def)
qed

lemma zf_read_last: "zf_read (entries @ [(n, member)]) n = member"
  by (simp add: zf_read_def)

lemma zf_read_distinct:
  "distinct (zf_namelist entries) \<Longrightarrow> (n, member) \<in> set entries \<Longrightarrow> zf_read entries n = member"
proof -
  assume d: "distinct (zf_namelist entries)" and m: "(n, member) \<in> set entries"
  have "distinct (map fst (rev entries))"
    using d by (simp add: zf_namelist_def rev_map [symmetric] del: rev_map)
  moreover have "(n, member) \<in> set (rev entries)" using m by simp
  ultimately have "map_of (rev entries) n = Some member" by (rule map_of_is_SomeI)
  then show ?thesis by (simp add: zf_read_def)
qed

text \<open>The definitions a concrete package and a concrete directory are evaluated with.\<close>

lemmas eval_zip = extract_docx_text_def read_xml_from_docx_def zf_read_def zf_namelist_def
  extra_step_def part_paragraphs_def is_extra_xml_def startswith_def endswith_def
  DOCX_WORD_DIR_def DOCX_MAIN_DOCUMENT_def

lemmas eval_dir = iter_docx_files_def endswith_def stem_def rfind_dot_def py_def

section \<open>Properties of the part aggregator\<close>

text \<open>
  C3 (as stated, refuted).  The claim puts behind the main part's lines the lines of
  exactly the entries with a supplementary name.  An archive may hold two entries of one
  name; the name is then listed twice and read twice, and each reading gives the later
  entry.  Here the lines of the first entry \<open>word/header1.xml\<close> are missing and those
  of the second stand twice.
\<close>

theorem extract_docx_text_duplicate_counterexample:
  "extract_docx_text id
     (ZipFile
        [(py ''word/document.xml'',
            Inr (Inr (Element (qn ''document'') None [par [run [text_node (py ''main'')]]]))),
         (py ''word/header1.xml'',
            Inr (Inr (Element (qn ''hdr'') None [par [run [text_node (py ''A'')]]]))),
         (py ''word/header1.xml'',
            Inr (Inr (Element (qn ''hdr'') None [par [run [text_node (py ''B'')]]])))])
     = Inr (Some \<lparr>paragraphs = [py ''main'', py ''B'', py ''B'']\<rparr>)
   \<and> is_extra_xml (py ''word/header1.xml'')
   \<and> member_paragraphs id
         (Inr (Inr (Element (qn ''hdr'') None [par [run [text_node (py ''A'')]]])))
     = [py ''A'']
   \<and> member_paragraphs id
         (Inr (Inr (Element (qn ''hdr'') None [par [run [text_node (py ''B'')]]])))
     = [py ''B'']"
  by (simp add: eval_zip member_paragraphs_def eval_xml py_def
        strip_def lstrip_def rstrip_def is_space_def)

text \<open>
  C3 (amended).  When the package is a zip container whose main part parses and no
  supplementary part raises an error that \<open>_read_xml_from_docx\<close> does not catch, the
  result is the main part's lines followed, for each name that the archive lists and
  that starts with \<open>word/header\<close> or \<open>word/footer\<close> or is \<open>word/footnotes.xml\<close> or
  \<open>word/endnotes.xml\<close>, and ends with \<open>.xml\<close>, by the lines of the part read under
  that name: the names in sorted order, a name listed twice taken twice, the part read
  being the last entry of the name, which is the entry itself when the names are
  distinct.  Names are compared as lists of code points.  With \<open>header2.xml\<close> listed
  before \<open>header1.xml\<close>, the lines of \<open>header1.xml\<close> come first, both after the main
  part's lines.
\<close>

theorem extract_docx_text_order:
  "(read_xml_from_docx fromstring (ZipFile entries) DOCX_MAIN_DOCUMENT = Inr (Some main)
      \<and> list_all (\<lambda>n. \<not> part_raises fromstring (ZipFile entries) n)
           (filter is_extra_xml (zf_namelist entries)) \<longrightarrow>
      extract_docx_text fromstring (ZipFile entries)
        = Inr (Some \<lparr>paragraphs = extract_paragraphs_from_xml main
             @ concat (map (part_paragraphs fromstring (ZipFile entries))
                 (sort (filter is_extra_xml (zf_namelist entries))))\<rparr>))
   \<and> sorted (sort (filter is_extra_xml (zf_namelist entries)))
   \<and> mset (sort (filter is_extra_xml (zf_namelist entries)))
       = filter_mset is_extra_xml (mset (zf_namelist entries))
   \<and> (is_extra_xml n \<longleftrightarrow>
         (startswith n (py ''word/header'') \<or> startswith n (py ''word/footer'')
            \<or> n = py ''word/footnotes.xml'' \<or> n = py ''word/endnotes.xml'')
         \<and> endswith n (py ''.xml''))
   \<and> zf_read (entries @ [(n, member)]) n = member
   \<and> (distinct (zf_namelist entries) \<and> (n, member) \<in> set entries \<longrightarrow> zf_read entries n = member)"
  using extract_docx_text_Some [of fromstring entries main] is_extra_xml_iff [of n]
        zf_read_last [of entries n member] zf_read_distinct [of entries n member]
  by simp

theorem extract_docx_text_order_witness:
  "extract_docx_text id
     (ZipFile
        [(py ''word/header2.xml'',
            Inr (Inr (Element (qn ''hdr'') None [par [run [text_node (py ''h2'')]]]))),
         (py ''word/document.xml'',
            Inr (Inr (Element (qn ''document'') None [par [run [text_node (py ''main'')]]]))),
         (py ''word/styles.xml'',
            Inr (Inr (Element (qn ''styles'') None [par [run [text_node (py ''no'')]]]))),
         (py ''word/header1.xml'',
            Inr (Inr (Element (qn ''hdr'') None [par [run [text_node (py ''h1'')]]])))])
     = Inr (Some \<lparr>paragraphs = [py ''main'', py ''h1'', py ''h2'']\<rparr>)"
proof -
  let ?entries = "[(py ''word/header2.xml'',
            Inr (Inr (Element (qn ''hdr'') None [par [run [text_node (py ''h2'')]]]))),
         (py ''word/document.xml'',
            Inr (Inr (Element (qn ''document'') None [par [run [text_node (py ''main'')]]]))),
         (py ''word/styles.xml'',
            Inr (Inr (Element (qn ''styles'') None [par [run [text_node (py ''no'')]]]))),
         (py ''word/header1.xml'',
            Inr (Inr (Element (qn ''hdr'') None [par [run [text_node (py ''h1'')]]])))]
        :: (pystr \<times> (exn + exn + element)) list"
  let ?main = "Element (qn ''document'') None [par [run [text_node (py ''main'')]]]"
  have m: "read_xml_from_docx id (ZipFile ?entries) DOCX_MAIN_DOCUMENT = Inr (Some ?main)"
    by (simp add: read_xml_from_docx_def zf_read_def DOCX_MAIN_DOCUMENT_def py_def)
  have f: "filter is_extra_xml (zf_namelist ?entries)
             = [py ''word/header2.xml'', py ''word/header1.xml'']"
    by (simp add: zf_namelist_def is_extra_xml_def startswith_def endswith_def DOCX_WORD_DIR_def py_def)
  have s: "sort (filter is_extra_xml (zf_namelist ?entries))
             = [py ''word/header1.xml'', py ''word/header2.xml'']"
    by (simp only: f) (simp add: py_def)
  have r: "list_all (\<lambda>n. \<not> part_raises id (ZipFile ?entries) n)
             (filter is_extra_xml (zf_namelist ?entries))"
    by (simp only: f) (simp add: part_raises_def read_xml_from_docx_def zf_read_def py_def)
  have p: "extract_paragraphs_from_xml ?main = [py ''main'']"
    by (simp add: eval_xml py_def strip_def lstrip_def rstrip_def is_space_def)
  have h: "concat (map (part_paragraphs id (ZipFile ?entries))
             [py ''word/header1.xml'', py ''word/header2.xml'']) = [py ''h1'', py ''h2'']"
    by (simp add: part_paragraphs_def read_xml_from_docx_def zf_read_def
          eval_xml py_def strip_def lstrip_def rstrip_def is_space_def)
  have "extract_docx_text id (ZipFile ?entries)
        = Inr (Some \<lparr>paragraphs = extract_paragraphs_from_xml ?main
             @ concat (map (part_paragraphs id (ZipFile ?entries))
                 (sort (filter is_extra_xml (zf_namelist ?entries))))\<rparr>)"
    using conjunct1 [OF extract_docx_text_order [of id ?entries ?main]] m r
    by (simp only: simp_thms)
  then show ?thesis by (simp only: s p h append.simps)
qed

text \<open>
  C4 (not met by the program).  The claim has \<open>extract_docx_text\<close> return \<open>None\<close>
  whenever the bytes of \<open>word/document.xml\<close> are not well-formed XML, and the batch
  converter skip the file and go on.  \<open>_read_xml_from_docx\<close> catches \<open>ParseError\<close>
  only.  When \<open>ET.fromstring\<close> raises another exception for the data, as it does with
  \<open>ValueError\<close> or \<open>LookupError\<close> for bytes that declare an encoding, the exception
  leaves \<open>_read_xml_from_docx\<close> and \<open>extract_docx_text\<close>, and the loop of
  \<open>convert_directory\<close> ends with it: the file is not counted as skipped and the files
  behind it are not converted.
\<close>

theorem extract_docx_text_uncaught:
  "zf_read entries DOCX_MAIN_DOCUMENT = Inr data \<and> fromstring data = Inl e \<and> e \<noteq> ParseError
     \<and> content f = ZipFile entries \<longrightarrow>
     read_xml_from_docx fromstring (ZipFile entries) DOCX_MAIN_DOCUMENT = Inl e
     \<and> extract_docx_text fromstring (ZipFile entries) = Inl e
     \<and> foldl (convert_step fromstring) (Inr b) (f # rest) = Inl e"
proof
  assume a: "zf_read entries DOCX_MAIN_DOCUMENT = Inr data \<and> fromstring data = Inl e
     \<and> e \<noteq> ParseError \<and> content f = ZipFile entries"
  then have r: "read_xml_from_docx fromstring (ZipFile entries) DOCX_MAIN_DOCUMENT = Inl e"
    by (simp add: read_xml_from_docx_def)
  then have x: "extract_docx_text fromstring (ZipFile entries) = Inl e"
    by (rule extract_docx_text_raises)
  have "convert_step fromstring (Inr b) f = Inl e"
    using a x by (simp add: convert_step_def)
  then have "foldl (convert_step fromstring) (Inr b) (f # rest) = Inl e"
    by (simp add: foldl_convert_step_Inl)
  with r x show "read_xml_from_docx fromstring (ZipFile entries) DOCX_MAIN_DOCUMENT = Inl e
     \<and> extract_docx_text fromstring (ZipFile entries) = Inl e
     \<and> foldl (convert_step fromstring) (Inr b) (f # rest) = Inl e"
    by simp
qed

theorem extract_docx_text_uncaught_witness:
  "extract_docx_text id (ZipFile [(py ''word/document.xml'', Inr (Inl ValueError))])
     = Inl ValueError
   \<and> convert_directory id
       [\<lparr>name = py ''b.docx'', is_file = True,
          content = ZipFile [(py ''word/document.xml'',
                      Inr (Inr (Element (qn ''document'') None [par [run [text_node (py ''hi'')]]])))]\<rparr>,
        \<lparr>name = py ''a.docx'', is_file = True,
          content = ZipFile [(py ''word/document.xml'', Inr (Inl ValueError))]\<rparr>]
     = Inl ValueError"
proof -
  let ?doc = "[(py ''word/document.xml'', Inr (Inl ValueError))]
                :: (pystr \<times> (exn + exn + element)) list"
  let ?fa = "\<lparr>name = py ''a.docx'', is_file = True, content = ZipFile ?doc\<rparr>"
  let ?fb = "\<lparr>name = py ''b.docx'', is_file = True,
          content = ZipFile ([(py ''word/document.xml'',
                      Inr (Inr (Element (qn ''document'') None [par [run [text_node (py ''hi'')]]])))]
                    :: (pystr \<times> (exn + exn + element)) list)\<rparr>"
  let ?st = "\<lparr>written = [], converted = 0, skipped = 0\<rparr>"
  have h: "zf_read ?doc DOCX_MAIN_DOCUMENT = Inr (Inl ValueError)
           \<and> id (Inl ValueError :: exn + element) = Inl ValueError
           \<and> ValueError \<noteq> ParseError \<and> content ?fa = ZipFile ?doc"
    by (simp add: zf_read_def DOCX_MAIN_DOCUMENT_def)
  from extract_docx_text_uncaught [of ?doc "Inl ValueError" id ValueError ?fa ?st "[?fb]"] h
  have r: "extract_docx_text id (ZipFile ?doc) = Inl ValueError
           \<and> foldl (convert_step id) (Inr ?st) [?fa, ?fb] = Inl ValueError"
    by blast
  have files: "iter_docx_files [?fb, ?fa] = [?fa, ?fb]"
    by (simp add: eval_dir)
  have c: "convert_directory id [?fb, ?fa] = Inl ValueError"
    by (simp only: convert_directory_def files conjunct2 [OF r])
  show ?thesis by (rule conjI [OF conjunct1 [OF r] c])
qed

text \<open>
  C5 (as stated, refuted).  The claim equates the result with the result for the package
  without the part that fails to parse.  Where an earlier entry has the same name, the
  failing entry hides it; with the failing entry taken out the earlier one is read, and
  its lines appear.
\<close>

theorem extract_docx_text_hidden_entry_counterexample:
  "extract_docx_text id
     (ZipFile
        [(py ''word/document.xml'',
            Inr (Inr (Element (qn ''document'') None [par [run [text_node (py ''main'')]]]))),
         (py ''word/header1.xml'',
            Inr (Inr (Element (qn ''hdr'') None [par [run [text_node (py ''A'')]]]))),
         (py ''word/header1.xml'', Inr (Inl ParseError))])
     = Inr (Some \<lparr>paragraphs = [py ''main'']\<rparr>)
   \<and> extract_docx_text id
     (ZipFile
        [(py ''word/document.xml'',
            Inr (Inr (Element (qn ''document'') None [par [run [text_node (py ''main'')]]]))),
         (py ''word/header1.xml'',
            Inr (Inr (Element (qn ''hdr'') None [par [run [text_node (py ''A'')]]])))])
     = Inr (Some \<lparr>paragraphs = [py ''main'', py ''A'']\<rparr>)"
  by (simp add: eval_zip eval_xml py_def strip_def lstrip_def rstrip_def is_space_def)

text \<open>
  C5 (amended).  A supplementary part that is read and does not parse, \<open>ET.fromstring\<close>
  raising \<open>ParseError\<close>, contributes no line, and the result is the result for the
  package without the entries of that name, whatever the other parts do; the document
  is reported not extractable only when reading the main part gives \<open>None\<close>.
\<close>

theorem extract_docx_text_skips_malformed_part:
  "is_extra_xml n \<and> zf_read entries n = Inr data \<and> fromstring data = Inl ParseError \<longrightarrow>
     part_paragraphs fromstring (ZipFile entries) n = []
     \<and> extract_docx_text fromstring (ZipFile entries)
         = extract_docx_text fromstring (ZipFile (filter (\<lambda>e. fst e \<noteq> n) entries))
     \<and> (extract_docx_text fromstring (ZipFile entries) = Inr None
          \<longleftrightarrow> read_xml_from_docx fromstring (ZipFile entries) DOCX_MAIN_DOCUMENT = Inr None)"
proof
  assume a: "is_extra_xml n \<and> zf_read entries n = Inr data \<and> fromstring data = Inl ParseError"
  then have bad: "read_xml_from_docx fromstring (ZipFile entries) n = Inr None"
    by (simp add: read_xml_from_docx_def)
  then have none: "part_paragraphs fromstring (ZipFile entries) n = []"
    by (simp add: part_paragraphs_def)
  have "extract_docx_text fromstring (ZipFile entries)
         = extract_docx_text fromstring (ZipFile (filter (\<lambda>e. fst e \<noteq> n) entries))"
    using a bad by (intro malformed_part_omitted) simp_all
  with none show "part_paragraphs fromstring (ZipFile entries) n = []
     \<and> extract_docx_text fromstring (ZipFile entries)
         = extract_docx_text fromstring (ZipFile (filter (\<lambda>e. fst e \<noteq> n) entries))
     \<and> (extract_docx_text fromstring (ZipFile entries) = Inr None
          \<longleftrightarrow> read_xml_from_docx fromstring (ZipFile entries) DOCX_MAIN_DOCUMENT = Inr None)"
    using extract_docx_text_None_iff [of fromstring "ZipFile entries"] by simp
qed

theorem extract_docx_text_skips_malformed_part_witness:
  "extract_docx_text id
     (ZipFile
        [(py ''word/footer1.xml'', Inr (Inl ParseError)),
         (py ''word/document.xml'',
            Inr (Inr (Element (qn ''document'') None [par [run [text_node (py ''main'')]]]))),
         (py ''word/header1.xml'',
            Inr (Inr (Element (qn ''hdr'') None [par [run [text_node (py ''h1'')]]])))])
     = extract_docx_text id
     (ZipFile
        [(py ''word/document.xml'',
            Inr (Inr (Element (qn ''document'') None [par [run [text_node (py ''main'')]]]))),
         (py ''word/header1.xml'',
            Inr (Inr (Element (qn ''hdr'') None [par [run [text_node (py ''h1'')]]])))])
   \<and> part_paragraphs id
     (ZipFile
        [(py ''word/footer1.xml'', Inr (Inl ParseError)),
         (py ''word/document.xml'',
            Inr (Inr (Element (qn ''document'') None [par [run [text_node (py ''main'')]]]))),
         (py ''word/header1.xml'',
            Inr (Inr (Element (qn ''hdr'') None [par [run [text_node (py ''h1'')]]])))])
     (py ''word/footer1.xml'') = []
   \<and> extract_docx_text id
     (ZipFile
        [(py ''word/footer1.xml'', Inr (Inl ParseError)),
         (py ''word/document.xml'',
            Inr (Inr (Element (qn ''document'') None [par [run [text_node (py ''main'')]]]))),
         (py ''word/header1.xml'',
            Inr (Inr (Element (qn ''hdr'') None [par [run [text_node (py ''h1'')]]])))])
     = Inr (Some \<lparr>paragraphs = [py ''main'', py ''h1'']\<rparr>)"
proof -
  let ?rest = "[(py ''word/document.xml'',
            Inr (Inr (Element (qn ''document'') None [par [run [text_node (py ''main'')]]]))),
         (py ''word/header1.xml'',
            Inr (Inr (Element (qn ''hdr'') None [par [run [text_node (py ''h1'')]]])))]
        :: (pystr \<times> (exn + exn + element)) list"
  let ?entries = "(py ''word/footer1.xml'', Inr (Inl ParseError :: exn + element)) # ?rest"
  have h: "is_extra_xml (py ''word/footer1.xml'')
           \<and> zf_read ?entries (py ''word/footer1.xml'') = Inr (Inl ParseError)
           \<and> id (Inl ParseError :: exn + element) = Inl ParseError"
    by (simp add: is_extra_xml_def startswith_def endswith_def DOCX_WORD_DIR_def zf_read_def py_def)
  have f: "filter (\<lambda>e. fst e \<noteq> py ''word/footer1.xml'') ?entries = ?rest"
    by (simp add: py_def)
  from extract_docx_text_skips_malformed_part
         [of "py ''word/footer1.xml''" ?entries "Inl ParseError" id] h
  have r: "part_paragraphs id (ZipFile ?entries) (py ''word/footer1.xml'') = []
     \<and> extract_docx_text id (ZipFile ?entries)
         = extract_docx_text id
             (ZipFile (filter (\<lambda>e. fst e \<noteq> py ''word/footer1.xml'') ?entries))"
    by blast
  have e: "extract_docx_text id (ZipFile ?entries) = extract_docx_text id (ZipFile ?rest)"
    using r by (simp only: f)
  have v: "extract_docx_text id (ZipFile ?rest)
     = Inr (Some \<lparr>paragraphs = [py ''main'', py ''h1'']\<rparr>)"
    by (simp add: eval_zip eval_xml py_def strip_def lstrip_def rstrip_def is_space_def)
  have w: "extract_docx_text id (ZipFile ?entries)
     = Inr (Some \<lparr>paragraphs = [py ''main'', py ''h1'']\<rparr>)"
    by (simp only: e v)
  show ?thesis
    by (rule conjI [OF e conjI [OF conjunct1 [OF r] w]])
qed

section \<open>The empty document\<close>


lemma splitlines_subset: "l \<in> set (splitlines s) \<Longrightarrow> set l \<subseteq> set s"
proof (induction s rule: splitlines.induct)
  case 1
  then show ?case by simp
next
  case (2 c cs)
  let ?line = "takeWhile (\<lambda>x. \<not> is_linebreak x) (c # cs)"
  let ?D = "dropWhile (\<lambda>x. \<not> is_linebreak x) (c # cs)"
  have line: "set ?line \<subseteq> set (c # cs)"
    by (auto dest: set_takeWhileD)
  have rest: "set ?D \<subseteq> set (c # cs)"
    by (auto dest: set_dropWhileD)
  show ?case
  proof (cases ?D)
    case Nil
    with "2.prems" line show ?thesis by (simp add: Let_def)
  next
    case (Cons d ds)
    show ?thesis
    proof (cases ds)
      case Nil
      with Cons "2.prems" line show ?thesis by (simp add: Let_def)
    next
      case C2: (Cons e es)
      have sub: "set ds \<subseteq> set (c # cs)" "set es \<subseteq> set (c # cs)"
        using rest Cons C2 by auto
      show ?thesis
      proof (cases "d = CR \<and> e = NL")
        case True
        with Cons C2 "2.prems" have "l = ?line \<or> l \<in> set (splitlines es)"
          by (simp add: Let_def)
        with line sub "2.IH"(2) [OF refl Cons C2 True] show ?thesis by blast
      next
        case False
        with Cons C2 "2.prems" have "l = ?line \<or> l \<in> set (splitlines ds)"
          by (auto simp add: Let_def)
        with line sub "2.IH"(3) [OF refl Cons C2 False] show ?thesis by blast
      qed
    qed
  qed
qed

lemma body_blank:
  assumes "list_all (list_all is_space) ps"
  shows "body ps = []"
proof -
  let ?j = "join [NL] (collect_lines ps)"
  have "is_space x" if "x \<in> set ?j" for x
  proof -
    from that set_join [of "[NL]" "collect_lines ps"]
    have "x = NL \<or> (\<exists>l\<in>set (collect_lines ps). x \<in> set l)" by auto
    then show ?thesis
    proof
      assume "x = NL" then show ?thesis by simp
    next
      assume "\<exists>l\<in>set (collect_lines ps). x \<in> set l"
      then obtain l p where "p \<in> set ps" "l \<in> set (splitlines p)" "x \<in> set l"
        by (auto simp: collect_lines_concat)
      with splitlines_subset have "p \<in> set ps" "x \<in> set p" by blast+
      with assms show ?thesis by (auto simp: list_all_iff)
    qed
  qed
  moreover have "set (re_sub_nl3 (re_sub_blank_nl ?j)) \<subseteq> set ?j"
    using set_re_sub_nl3 set_re_sub_blank_nl by blast
  ultimately have "list_all is_space (re_sub_nl3 (re_sub_blank_nl ?j))"
    by (auto simp: list_all_iff)
  then show ?thesis unfolding body_def by (rule strip_all_space)
qed

text \<open>
  C10.  \<open>to_text\<close> never returns the empty text.  When the joined and stripped content
  is empty the result is the single newline; that is so for the empty paragraph list and
  for every list whose paragraphs hold nothing but whitespace.  The batch converter
  writes that one-newline file for such a document and counts it as converted.
\<close>

theorem to_text_never_empty:
  "to_text d \<noteq> []
   \<and> (body (paragraphs d) = [] \<longrightarrow> to_text d = [NL])
   \<and> (list_all (list_all is_space) (paragraphs d) \<longrightarrow> to_text d = [NL])
   \<and> to_text \<lparr>paragraphs = []\<rparr> = [NL]
   \<and> (extract_docx_text fromstring (content f) = Inr (Some d)
        \<and> list_all (list_all is_space) (paragraphs d) \<longrightarrow>
        convert_step fromstring (Inr b) f
          = Inr (b\<lparr>written := written b @ [(stem (name f) @ py ''.txt'', [NL])],
                  converted := converted b + 1\<rparr>))"
proof -
  have t: "to_text d = body (paragraphs d) @ [NL]" for d
    by (rule to_text_body)
  have c1: "to_text d \<noteq> []" by (simp add: t)
  have c2: "to_text d = [NL]" if "body (paragraphs d) = []"
    using that by (simp add: t)
  have c3: "to_text d = [NL]" if "list_all (list_all is_space) (paragraphs d)"
    using body_blank [OF that] by (simp add: t)
  have c4: "to_text \<lparr>paragraphs = []\<rparr> = [NL]"
    using body_blank [of "[]"] by (simp add: t)
  have c5: "convert_step fromstring (Inr b) f
          = Inr (b\<lparr>written := written b @ [(stem (name f) @ py ''.txt'', [NL])],
                  converted := converted b + 1\<rparr>)"
    if "extract_docx_text fromstring (content f) = Inr (Some d)"
       "list_all (list_all is_space) (paragraphs d)"
    using that c3 by (simp add: convert_step_def)
  show ?thesis
    using c1 c2 c3 c4 c5 by blast
qed

theorem to_text_never_empty_witness:
  "to_text \<lparr>paragraphs = [py ''  '', [TAB, 12288], []]\<rparr> = [NL]
   \<and> convert_step (\<lambda>data. data) (Inr \<lparr>written = [], converted = 0, skipped = 0\<rparr>)
        \<lparr>name = py ''empty.docx'', is_file = True,
          content = ZipFile [(py ''word/document.xml'',
                      Inr (Inr (Element (qn ''document'') None [par [], par [run [tab_node]]])))]\<rparr>
     = Inr \<lparr>written = [(py ''empty.txt'', [NL])], converted = 1, skipped = 0\<rparr>"
proof -
  let ?d = "\<lparr>paragraphs = [py ''  '', [TAB, 12288], []]\<rparr>"
  let ?f = "\<lparr>name = py ''empty.docx'', is_file = True,
          content = ZipFile ([(py ''word/document.xml'',
                      Inr (Inr (Element (qn ''document'') None [par [], par [run [tab_node]]])))]
                    :: (pystr \<times> (exn + exn + element)) list)\<rparr>"
  let ?b = "\<lparr>written = [], converted = 0, skipped = 0\<rparr>"
  have "list_all (list_all is_space) (paragraphs ?d)"
    by (simp add: py_def is_space_def)
  with to_text_never_empty [of ?d] have w1: "to_text ?d = [NL]" by blast
  have e: "extract_docx_text (\<lambda>data. data) (content ?f) = Inr (Some \<lparr>paragraphs = [[], []]\<rparr>)"
    by (simp add: eval_zip eval_xml py_def strip_def lstrip_def rstrip_def is_space_def)
  have "list_all (list_all is_space) (paragraphs \<lparr>paragraphs = [[], []]\<rparr>)"
    by simp
  with to_text_never_empty [of "\<lparr>paragraphs = [[], []]\<rparr>" "\<lambda>data. data" ?f ?b] e
  have "convert_step (\<lambda>data. data) (Inr ?b) ?f
          = Inr (?b\<lparr>written := written ?b @ [(stem (name ?f) @ py ''.txt'', [NL])],
                  converted := converted ?b + 1\<rparr>)"
    by blast
  then have w2: "convert_step (\<lambda>data. data) (Inr ?b) ?f
     = Inr \<lparr>written = [(py ''empty.txt'', [NL])], converted = 1, skipped = 0\<rparr>"
    by (simp add: stem_def rfind_dot_def py_def)
  show ?thesis by (rule conjI [OF w1 w2])
qed

section \<open>Properties of the merge utility\<close>


lemma read_text_with_fallback_chain:
  "read_text_with_fallback read_text read_replace data =
     (case read_text UTF_8 data of
        Some s \<Rightarrow> s
      | None \<Rightarrow>
          (case read_text UTF_8_SIG data of
             Some s \<Rightarrow> s
           | None \<Rightarrow>
               (case read_text GB18030 data of
                  Some s \<Rightarrow> s
                | None \<Rightarrow> read_replace data)))"
  by (simp add: read_text_with_fallback_def split: option.splits)

lemma merge_txt_files_Some:
  "merge_txt_files read_text read_replace (Some entries)
     = Inr (join [] (merge_loop read_text read_replace 0 [] (sort_key name (filter is_txt_file entries))),
            length (filter is_txt_file entries))"
  by (simp add: merge_txt_files_def Let_def)

lemma filter_single:
  assumes "mset xs = mset ys" and "filter P ys = [k]"
  shows "filter P xs = [k]"
proof -
  have "mset (filter P xs) = mset (filter P ys)"
    using assms(1) by (simp only: mset_filter)
  also have "\<dots> = {#k#}" by (simp only: assms(2)) simp
  finally show ?thesis by (simp only: mset_single_iff)
qed

lemma sort_key_three:
  assumes m: "mset xs = mset [a, b, c]"
    and ab: "f a < f b" and bc: "f b < f c"
  shows "sort_key f xs = [a, b, c]"
proof (rule properties_for_sort_key)
  show "mset [a, b, c] = mset xs" using m by simp
  have "f a < f c" using ab bc by (rule less_trans)
  then show "sorted (map f [a, b, c])" using ab bc by (simp add: less_imp_le)
  fix k
  assume k: "k \<in> set [a, b, c]"
  have d: "f a \<noteq> f b" "f b \<noteq> f c" "f a \<noteq> f c" using ab bc by auto
  from k d have "\<exists>z. filter (\<lambda>x. f k = f x) [a, b, c] = [z]"
    by auto
  then obtain z where z: "filter (\<lambda>x. f k = f x) [a, b, c] = [z]" by blast
  with filter_single [OF m z] show
    "filter (\<lambda>x. f k = f x) [a, b, c] = filter (\<lambda>x. f k = f x) xs"
    by simp
qed

text \<open>
  C9.  Reading a file tries the strict decoders UTF-8, UTF-8 with byte-order mark and
  GB18030 in that order and takes the first that succeeds; when all three fail it takes
  the UTF-8 decoding that replaces undecodable bytes.  So it returns a text for every
  content, and the merge of an existing directory returns normally whatever the
  decoders do.
\<close>

theorem read_text_with_fallback_total:
  "read_text_with_fallback read_text read_replace data =
     (case read_text UTF_8 data of
        Some s \<Rightarrow> s
      | None \<Rightarrow>
          (case read_text UTF_8_SIG data of
             Some s \<Rightarrow> s
           | None \<Rightarrow>
               (case read_text GB18030 data of
                  Some s \<Rightarrow> s
                | None \<Rightarrow> read_replace data)))
   \<and> (\<exists>out. merge_txt_files read_text read_replace (Some entries)
              = Inr (out, length (filter is_txt_file entries)))"
  using read_text_with_fallback_chain [of read_text read_replace data]
        merge_txt_files_Some [of read_text read_replace entries]
  by simp

theorem read_text_with_fallback_total_witness:
  "read_text_with_fallback
     (\<lambda>enc data. if enc = GB18030 \<and> data = [214, 208 :: nat] then Some [20013]
                  else if enc \<noteq> GB18030 \<and> data = [65] then Some [65] else None)
     (\<lambda>data. [65533]) [65] = [65]
   \<and> read_text_with_fallback
     (\<lambda>enc data. if enc = GB18030 \<and> data = [214, 208 :: nat] then Some [20013]
                  else if enc \<noteq> GB18030 \<and> data = [65] then Some [65] else None)
     (\<lambda>data. [65533]) [214, 208] = [20013]
   \<and> read_text_with_fallback
     (\<lambda>enc data. if enc = GB18030 \<and> data = [214, 208 :: nat] then Some [20013]
                  else if enc \<noteq> GB18030 \<and> data = [65] then Some [65] else None)
     (\<lambda>data. [65533]) [255] = [65533]
   \<and> (\<exists>out. merge_txt_files
     (\<lambda>enc data. if enc = GB18030 \<and> data = [214, 208 :: nat] then Some [20013]
                  else if enc \<noteq> GB18030 \<and> data = [65] then Some [65] else None)
     (\<lambda>data. [65533])
     (Some [\<lparr>name = py ''a.txt'', is_file = True, content = [255]\<rparr>]) = Inr (out, 1))"
proof -
  let ?rt = "\<lambda>enc data. if enc = GB18030 \<and> data = [214, 208 :: nat] then Some [20013 :: nat]
                  else if enc \<noteq> GB18030 \<and> data = [65] then Some [65] else None"
  let ?rr = "\<lambda>data :: nat list. [65533 :: nat]"
  let ?dir = "[\<lparr>name = py ''a.txt'', is_file = True, content = [255 :: nat]\<rparr>]"
  have w1: "read_text_with_fallback ?rt ?rr [65] = [65]"
    using read_text_with_fallback_total [of ?rt ?rr "[65]" "[]"] by simp
  have w2: "read_text_with_fallback ?rt ?rr [214, 208] = [20013]"
    using read_text_with_fallback_total [of ?rt ?rr "[214, 208]" "[]"] by simp
  have w3: "read_text_with_fallback ?rt ?rr [255] = [65533]"
    using read_text_with_fallback_total [of ?rt ?rr "[255]" "[]"] by simp
  have "length (filter is_txt_file ?dir) = 1"
    by (simp add: is_txt_file_def lower_def suffix_of_def rfind_dot_def py_def)
  with read_text_with_fallback_total [of ?rt ?rr "[255]" ?dir]
  have w4: "\<exists>out. merge_txt_files ?rt ?rr (Some ?dir) = Inr (out, 1)"
    by (simp only:)
  show ?thesis
    by (rule conjI [OF w1 conjI [OF w2 conjI [OF w3 w4]]])
qed

text \<open>
  C8.  When the text files of the source directory are exactly \<open>a.txt\<close>, \<open>b.txt\<close> and
  \<open>c.txt\<close>, in whatever order the directory lists them, and their UTF-8 texts are
  \<open>A\<close>, \<open>B\<close> and \<open>C\<close>, the merged file holds \<open>A\<close>, two newlines, \<open>B\<close>, two
  newlines, \<open>C\<close> and nothing more, and the count returned is 3.
\<close>

theorem merge_txt_files_abc:
  "mset (filter is_txt_file entries)
     = mset [\<lparr>name = py ''a.txt'', is_file = True, content = ca\<rparr>,
             \<lparr>name = py ''b.txt'', is_file = True, content = cb\<rparr>,
             \<lparr>name = py ''c.txt'', is_file = True, content = cc\<rparr>]
   \<and> read_text UTF_8 ca = Some (py ''A'')
   \<and> read_text UTF_8 cb = Some (py ''B'')
   \<and> read_text UTF_8 cc = Some (py ''C'')
   \<longrightarrow> merge_txt_files read_text read_replace (Some entries)
         = Inr (py ''A'' @ [NL, NL] @ py ''B'' @ [NL, NL] @ py ''C'', 3)"
proof
  let ?a = "\<lparr>name = py ''a.txt'', is_file = True, content = ca\<rparr>"
  let ?b = "\<lparr>name = py ''b.txt'', is_file = True, content = cb\<rparr>"
  let ?c = "\<lparr>name = py ''c.txt'', is_file = True, content = cc\<rparr>"
  assume h: "mset (filter is_txt_file entries) = mset [?a, ?b, ?c]
   \<and> read_text UTF_8 ca = Some (py ''A'')
   \<and> read_text UTF_8 cb = Some (py ''B'')
   \<and> read_text UTF_8 cc = Some (py ''C'')"
  have s: "sort_key name (filter is_txt_file entries) = [?a, ?b, ?c]"
  proof (rule sort_key_three)
    show "mset (filter is_txt_file entries) = mset [?a, ?b, ?c]" using h by blast
    show "name ?a < name ?b" by (simp add: py_def)
    show "name ?b < name ?c" by (simp add: py_def)
  qed
  have n: "length (filter is_txt_file entries) = 3"
    using arg_cong [OF s, of length] by simp
  have r: "read_text_with_fallback read_text read_replace ca = py ''A''"
      "read_text_with_fallback read_text read_replace cb = py ''B''"
      "read_text_with_fallback read_text read_replace cc = py ''C''"
    using h by (simp_all add: read_text_with_fallback_def)
  have "join [] (merge_loop read_text read_replace 0 [] [?a, ?b, ?c])
          = py ''A'' @ [NL, NL] @ py ''B'' @ [NL, NL] @ py ''C''"
    by (simp add: r Let_def endswith_def py_def)
  then show "merge_txt_files read_text read_replace (Some entries)
         = Inr (py ''A'' @ [NL, NL] @ py ''B'' @ [NL, NL] @ py ''C'', 3)"
    by (simp only: merge_txt_files_Some s n)
qed

theorem merge_txt_files_abc_witness:
  "merge_txt_files (\<lambda>enc data. Some data) (\<lambda>data. data)
     (Some [\<lparr>name = py ''c.txt'', is_file = True, content = py ''C''\<rparr>,
            \<lparr>name = py ''d.txt'', is_file = False, content = []\<rparr>,
            \<lparr>name = py ''a.txt'', is_file = True, content = py ''A''\<rparr>,
            \<lparr>name = py ''readme.md'', is_file = True, content = py ''R''\<rparr>,
            \<lparr>name = py ''b.txt'', is_file = True, content = py ''B''\<rparr>])
     = Inr (py ''A'' @ [NL, NL] @ py ''B'' @ [NL, NL] @ py ''C'', 3)"
proof -
  let ?entries = "[\<lparr>name = py ''c.txt'', is_file = True, content = py ''C''\<rparr>,
            \<lparr>name = py ''d.txt'', is_file = False, content = []\<rparr>,
            \<lparr>name = py ''a.txt'', is_file = True, content = py ''A''\<rparr>,
            \<lparr>name = py ''readme.md'', is_file = True, content = py ''R''\<rparr>,
            \<lparr>name = py ''b.txt'', is_file = True, content = py ''B''\<rparr>]"
  have f: "filter is_txt_file ?entries
         = [\<lparr>name = py ''c.txt'', is_file = True, content = py ''C''\<rparr>,
            \<lparr>name = py ''a.txt'', is_file = True, content = py ''A''\<rparr>,
            \<lparr>name = py ''b.txt'', is_file = True, content = py ''B''\<rparr>]"
    by (simp add: is_txt_file_def lower_def suffix_of_def rfind_dot_def py_def)
  have m: "mset (filter is_txt_file ?entries)
     = mset [\<lparr>name = py ''a.txt'', is_file = True, content = py ''A''\<rparr>,
             \<lparr>name = py ''b.txt'', is_file = True, content = py ''B''\<rparr>,
             \<lparr>name = py ''c.txt'', is_file = True, content = py ''C''\<rparr>]"
    by (simp only: f) (simp add: add_mset_commute)
  have d: "(\<lambda>enc data. Some data) UTF_8 (py ''A'') = Some (py ''A'')
         \<and> (\<lambda>enc data. Some data) UTF_8 (py ''B'') = Some (py ''B'')
         \<and> (\<lambda>enc data. Some data) UTF_8 (py ''C'') = Some (py ''C'')"
    by simp
  show ?thesis
    using merge_txt_files_abc [of ?entries "py ''A''" "py ''B''" "py ''C''"
            "\<lambda>enc data. Some data" "\<lambda>data. data"] m d
    by blast
qed

end
